theory Spec2Isabelle
  imports Main "HOL-Library.Word"
begin

unbundle bit_operations_syntax

section \<open>Merkle trees in Go: the data model\<close>

text \<open>
  The embedding follows \<^verbatim>\<open>merkletree.go\<close>, \<^verbatim>\<open>types.go\<close> and the helper file that holds
  \<^verbatim>\<open>getNextPowerOfTwo\<close> and \<^verbatim>\<open>getRoot\<close>.

  \<^item> Go's \<^verbatim>\<open>int\<close> and \<^verbatim>\<open>uint64\<close> are 64-bit words (a 64-bit platform); \<^verbatim>\<open>int\<close> is read
    with \<open>sint\<close>, compared with \<open>word_sle\<close> and shifted with \<open>signed_drop_bit\<close>.
  \<^item> \<^verbatim>\<open>len(s)\<close> is the length of the list as a number: every slice Go can hold has a
    length that fits \<^verbatim>\<open>int\<close>.
  \<^item> The nodes live in an arena: a \<^verbatim>\<open>*Node\<close> is \<open>None\<close> (nil) or \<open>Some a\<close>, the node in slot
    \<open>a\<close> of the heap, and \<^verbatim>\<open>&Node{...}\<close> takes the next free slot. Pointer equality is
    equality of slots. Memory is unbounded.
  \<^item> The receiver \<^verbatim>\<open>t\<close> of a method is a tree, not nil. The two pointer arguments of
    \<^verbatim>\<open>VerifyAggregatedProof\<close> are options, \<open>None\<close> being nil.
  \<^item> \<^verbatim>\<open>fmt.Errorf\<close> values are the constructors of \<open>error\<close>; a run-time panic (nil
    dereference, index out of range) is the value \<open>Panic\<close>.
  \<^item> SHA-256 and the hexadecimal formatting belong to Go's standard library. They are
    the parameter \<open>H\<close>: \<open>H bs\<close> stands for \<^verbatim>\<open>fmt.Sprintf("%x", sha256(bs))\<close>.
\<close>

datatype error =
    NoElements         \<comment> \<open>"no elements to create a Merkle Tree"\<close>
  | IndexOutOfBounds   \<comment> \<open>"index out of bounds" (GetProof, UpdateElement, GetAggregatedProof)\<close>
  | TooFewElements     \<comment> \<open>"an aggregated proof must contain at least two elements"\<close>
  | Panic              \<comment> \<open>run-time panic\<close>

type_synonym ptr = "nat option"

record Node =
  hash :: string
  left :: ptr
  right :: ptr
  parent :: ptr

type_synonym heap = "Node list"

record MerkleProof =
  hElement :: string
  siblings :: "string list"
  directions :: "bool list"

record MerkleTree =
  heap :: heap
  root :: ptr
  leaves :: "ptr list"

text \<open>The fields \<^verbatim>\<open>end\<close>, \<^verbatim>\<open>siblings\<close> and \<^verbatim>\<open>directions\<close> of the aggregated proof carry a
  suffix: \<open>end\<close> is a keyword, the other two are fields of \<open>MerkleProof\<close> already.\<close>

record AggregatedMerkleProof =
  start :: "64 word"
  end_ix :: "64 word"
  siblings_agg :: "string list"
  directions_agg :: "bool list"

type_synonym hasher = "string \<Rightarrow> string"

definition deref :: "heap \<Rightarrow> ptr \<Rightarrow> error + Node" where
  "deref h p = (case p of
       None \<Rightarrow> Inl Panic
     | Some a \<Rightarrow> if a < length h then Inr (h ! a) else Inl Panic)"

section \<open>Hashing\<close>

definition hashLeaf :: "hasher \<Rightarrow> string \<Rightarrow> string" where
  "hashLeaf H leaf = H leaf"

definition hashNode :: "hasher \<Rightarrow> string \<Rightarrow> string \<Rightarrow> string" where
  "hashNode H a b = H (a @ b)"

section \<open>getNextPowerOfTwo and getRoot\<close>

definition getNextPowerOfTwo :: "64 word \<Rightarrow> 64 word" where
  "getNextPowerOfTwo n =
     (if word_sle n 0 then 1
      else
        let n = n - 1;
            n = n OR signed_drop_bit 1 n;
            n = n OR signed_drop_bit 2 n;
            n = n OR signed_drop_bit 4 n;
            n = n OR signed_drop_bit 8 n;
            n = n OR signed_drop_bit 16 n
        in n + 1)"

definition getRoot :: "MerkleTree \<Rightarrow> error + string" where
  "getRoot t = (case root t of
       None \<Rightarrow> Inr ''''
     | Some a \<Rightarrow> (case deref (heap t) (Some a) of Inl e \<Rightarrow> Inl e | Inr n \<Rightarrow> Inr (hash n)))"

section \<open>VerifyProof\<close>

text \<open>The loop over \<^verbatim>\<open>proof.siblings\<close> reads \<^verbatim>\<open>proof.directions[i]\<close> at the same index: the
  recursion walks both lists in step, and a missing direction is the index panic.\<close>

fun verifyLoop :: "hasher \<Rightarrow> string \<Rightarrow> string list \<Rightarrow> bool list \<Rightarrow> error + string" where
  "verifyLoop H currentHash [] ds = Inr currentHash"
| "verifyLoop H currentHash (siblingHash # ss) [] = Inl Panic"
| "verifyLoop H currentHash (siblingHash # ss) (d # ds) =
     verifyLoop H (if d then hashNode H siblingHash currentHash
                   else hashNode H currentHash siblingHash) ss ds"

definition VerifyProof :: "hasher \<Rightarrow> string \<Rightarrow> MerkleProof \<Rightarrow> error + bool" where
  "VerifyProof H rt p =
     (case verifyLoop H (hElement p) (siblings p) (directions p) of
        Inl e \<Rightarrow> Inl e
      | Inr currentHash \<Rightarrow> Inr (currentHash = rt))"

section \<open>GetProof\<close>

text \<open>The walk from a node to the root, shared word for word by \<^verbatim>\<open>GetProof\<close> and
  \<^verbatim>\<open>GetAggregatedProof\<close>. It need not end on a heap with a parent cycle: \<open>None\<close> is
  the run that never returns.\<close>

partial_function (option) collectPath ::
  "heap \<Rightarrow> ptr \<Rightarrow> ptr \<Rightarrow> string list \<Rightarrow> bool list \<Rightarrow> (error + string list \<times> bool list) option"
where
  "collectPath h rt node sibs dirs =
     (if node = rt then Some (Inr (sibs, dirs))
      else case deref h node of
          Inl e \<Rightarrow> Some (Inl e)
        | Inr n \<Rightarrow> (case deref h (parent n) of
            Inl e \<Rightarrow> Some (Inl e)
          | Inr p \<Rightarrow>
              if left p = node
              then (case deref h (right p) of
                  Inl e \<Rightarrow> Some (Inl e)
                | Inr r \<Rightarrow> collectPath h rt (parent n) (sibs @ [hash r]) (dirs @ [False]))
              else (case deref h (left p) of
                  Inl e \<Rightarrow> Some (Inl e)
                | Inr l \<Rightarrow> collectPath h rt (parent n) (sibs @ [hash l]) (dirs @ [True]))))"

declare collectPath.simps [code]

definition GetProof :: "MerkleTree \<Rightarrow> 64 word \<Rightarrow> (error + MerkleProof) option" where
  "GetProof t index =
     (if int (length (leaves t)) \<le> sint index then Some (Inl IndexOutOfBounds)
      else if \<not> unat index < length (leaves t) then Some (Inl Panic)
      else case collectPath (heap t) (root t) (leaves t ! unat index) [] [] of
          None \<Rightarrow> None
        | Some (Inl e) \<Rightarrow> Some (Inl e)
        | Some (Inr (sibs, dirs)) \<Rightarrow>
            (case deref (heap t) (leaves t ! unat index) of
               Inl e \<Rightarrow> Some (Inl e)
             | Inr n \<Rightarrow> Some (Inr \<lparr>hElement = hash n, siblings = sibs, directions = dirs\<rparr>)))"

section \<open>NewMerkleTree\<close>

definition newLeaf :: "string \<Rightarrow> Node" where
  "newLeaf hs = \<lparr>hash = hs, left = None, right = None, parent = None\<rparr>"

text \<open>The first loop: one fresh node per element, in order.\<close>

fun allocLeaves :: "hasher \<Rightarrow> heap \<Rightarrow> string list \<Rightarrow> ptr list \<Rightarrow> heap \<times> ptr list" where
  "allocLeaves H h [] lvs = (h, lvs)"
| "allocLeaves H h (elem # elems) lvs =
     allocLeaves H (h @ [newLeaf (hashLeaf H elem)]) elems (lvs @ [Some (length h)])"

text \<open>The padding loop \<^verbatim>\<open>for len(leaves) < requiredLeaves\<close>.\<close>

function padLeaves :: "hasher \<Rightarrow> int \<Rightarrow> heap \<Rightarrow> ptr list \<Rightarrow> heap \<times> ptr list" where
  "padLeaves H requiredLeaves h lvs =
     (if int (length lvs) < requiredLeaves
      then padLeaves H requiredLeaves (h @ [newLeaf (hashLeaf H '''')]) (lvs @ [Some (length h)])
      else (h, lvs))"
  by pat_completeness auto
termination
  by (relation "measure (\<lambda>(H, r, h, lvs). nat (r - int (length lvs)))") auto

declare padLeaves.simps [simp del]

definition setParent :: "heap \<Rightarrow> ptr \<Rightarrow> ptr \<Rightarrow> heap" where
  "setParent h p par = (case p of None \<Rightarrow> h | Some a \<Rightarrow> h[a := (h ! a)\<lparr>parent := par\<rparr>])"

text \<open>The inner loop \<^verbatim>\<open>for i := 0; i < len(leaves); i += 2\<close>: the list argument is the
  part of the level from index \<open>i\<close> on. A level of odd length ends in the index panic of
  \<^verbatim>\<open>leaves[i+1]\<close>.\<close>

fun buildLevel :: "hasher \<Rightarrow> heap \<Rightarrow> ptr list \<Rightarrow> ptr list \<Rightarrow> error + heap \<times> ptr list" where
  "buildLevel H h [] nextLevel = Inr (h, nextLevel)"
| "buildLevel H h [l] nextLevel = Inl Panic"
| "buildLevel H h (l # r # rest) nextLevel =
     (case deref h l of
        Inl e \<Rightarrow> Inl e
      | Inr ln \<Rightarrow> (case deref h r of
          Inl e \<Rightarrow> Inl e
        | Inr rn \<Rightarrow>
            let par = Some (length h);
                h1 = h @ [\<lparr>hash = hashNode H (hash ln) (hash rn),
                          left = l, right = r, parent = None\<rparr>];
                h2 = setParent h1 l par;
                h3 = setParent h2 r par
            in buildLevel H h3 rest (nextLevel @ [par])))"

lemma buildLevel_length:
  "buildLevel H h lvs acc = Inr (h', nxt) \<Longrightarrow> length nxt = length acc + length lvs div 2"
  by (induction H h lvs acc rule: buildLevel.induct)
     (auto simp: Let_def split: sum.splits)

text \<open>The outer loop \<^verbatim>\<open>for len(leaves) > 1\<close>.\<close>

function buildLevels ::
  "hasher \<Rightarrow> heap \<Rightarrow> ptr list \<Rightarrow> ptr list \<Rightarrow> error + heap \<times> ptr list \<times> ptr list"
where
  "buildLevels H h lvs allNodes =
     (if 1 < length lvs
      then (case buildLevel H h lvs [] of
          Inl e \<Rightarrow> Inl e
        | Inr (h', nextLevel) \<Rightarrow> buildLevels H h' nextLevel (allNodes @ nextLevel))
      else Inr (h, lvs, allNodes))"
  by pat_completeness auto
termination
proof (relation "measure (\<lambda>(H, h, lvs, allNodes). length lvs)")
  show "wf (measure (\<lambda>(H, h, lvs, allNodes). length lvs))"
    by simp
next
  fix H :: hasher and h h' :: heap and lvs allNodes nextLevel :: "ptr list" and x
  assume "1 < length lvs" and "buildLevel H h lvs [] = Inr x" and "(h', nextLevel) = x"
  then have "length nextLevel = length lvs div 2"
    using buildLevel_length [of H h lvs "[]" h' nextLevel] by simp
  with \<open>1 < length lvs\<close>
  show "((H, h', nextLevel, allNodes @ nextLevel), (H, h, lvs, allNodes))
          \<in> measure (\<lambda>(H, h, lvs, allNodes). length lvs)"
    by simp
qed

declare buildLevels.simps [simp del]

text \<open>\<^verbatim>\<open>leaves[0]\<close> panics on an empty level and \<^verbatim>\<open>allNodes[:requiredLeaves]\<close> on a negative
  bound or one beyond the slice.\<close>

definition NewMerkleTree :: "hasher \<Rightarrow> string list \<Rightarrow> error + MerkleTree" where
  "NewMerkleTree H elements =
     (if length elements = 0 then Inl NoElements
      else
        let (h0, lvs0) = allocLeaves H [] elements [];
            requiredLeaves = sint (getNextPowerOfTwo (word_of_nat (length elements)));
            (h1, lvs1) = padLeaves H requiredLeaves h0 lvs0
        in case buildLevels H h1 lvs1 lvs1 of
            Inl e \<Rightarrow> Inl e
          | Inr (h2, lastLevel, allNodes) \<Rightarrow>
              (case lastLevel of
                 [] \<Rightarrow> Inl Panic
               | rt # _ \<Rightarrow>
                   if requiredLeaves < 0 \<or> int (length allNodes) < requiredLeaves
                   then Inl Panic
                   else Inr \<lparr>heap = h2, root = rt,
                             leaves = take (nat requiredLeaves) allNodes\<rparr>))"

section \<open>UpdateElement\<close>

text \<open>The result pairs the error (\<open>None\<close> is Go's nil error) with the heap as the call
  leaves it.\<close>

partial_function (option) updatePath ::
  "hasher \<Rightarrow> heap \<Rightarrow> ptr \<Rightarrow> ptr \<Rightarrow> (error option \<times> heap) option"
where
  "updatePath H h rt node =
     (if node = rt then Some (None, h)
      else case deref h node of
          Inl e \<Rightarrow> Some (Some e, h)
        | Inr n \<Rightarrow> (case deref h (parent n) of
            Inl e \<Rightarrow> Some (Some e, h)
          | Inr p \<Rightarrow>
              if left p = node
              then (case deref h (right p) of
                  Inl e \<Rightarrow> Some (Some e, h)
                | Inr r \<Rightarrow>
                    updatePath H (h[the (parent n) := p\<lparr>hash := hashNode H (hash n) (hash r)\<rparr>])
                      rt (parent n))
              else (case deref h (left p) of
                  Inl e \<Rightarrow> Some (Some e, h)
                | Inr l \<Rightarrow>
                    updatePath H (h[the (parent n) := p\<lparr>hash := hashNode H (hash l) (hash n)\<rparr>])
                      rt (parent n))))"

declare updatePath.simps [code]

definition UpdateElement ::
  "hasher \<Rightarrow> MerkleTree \<Rightarrow> 64 word \<Rightarrow> string \<Rightarrow> (error option \<times> MerkleTree) option"
where
  "UpdateElement H t index element =
     (if int (length (leaves t)) \<le> sint index then Some (Some IndexOutOfBounds, t)
      else if \<not> unat index < length (leaves t) then Some (Some Panic, t)
      else case deref (heap t) (leaves t ! unat index) of
          Inl e \<Rightarrow> Some (Some e, t)
        | Inr n \<Rightarrow>
            (case updatePath H
                    ((heap t)[the (leaves t ! unat index) := n\<lparr>hash := hashLeaf H element\<rparr>])
                    (root t) (leaves t ! unat index) of
               None \<Rightarrow> None
             | Some (e, h') \<Rightarrow> Some (e, t\<lparr>heap := h'\<rparr>)))"

section \<open>GetAggregatedProof and VerifyAggregatedProof\<close>

definition GetAggregatedProof ::
  "MerkleTree \<Rightarrow> 64 word \<Rightarrow> 64 word \<Rightarrow> (error + AggregatedMerkleProof) option"
where
  "GetAggregatedProof t startIndex endIndex =
     (if endIndex \<le> startIndex \<or> int (length (leaves t)) < sint endIndex
      then Some (Inl IndexOutOfBounds)
      else if endIndex - startIndex < 1 then Some (Inl TooFewElements)
      else if \<not> unat startIndex < length (leaves t) then Some (Inl Panic)
      else case collectPath (heap t) (root t) (leaves t ! unat startIndex) [] [] of
          None \<Rightarrow> None
        | Some (Inl e) \<Rightarrow> Some (Inl e)
        | Some (Inr (sibs, dirs)) \<Rightarrow>
            Some (Inr \<lparr>start = startIndex, end_ix = endIndex,
                       siblings_agg = sibs, directions_agg = dirs\<rparr>))"

text \<open>Both arguments of \<^verbatim>\<open>VerifyAggregatedProof\<close> are pointers, \<open>None\<close> being nil. The guard
  reads \<^verbatim>\<open>aggProof\<close> first, and its \<^verbatim>\<open>||\<close> reads \<^verbatim>\<open>tree\<close> only when \<open>start < end\<close>.\<close>

definition VerifyAggregatedProof ::
  "hasher \<Rightarrow> string \<Rightarrow> AggregatedMerkleProof option \<Rightarrow> MerkleTree option \<Rightarrow> error + bool"
where
  "VerifyAggregatedProof H rt aggProof tree =
     (case aggProof of
        None \<Rightarrow> Inl Panic
      | Some ap \<Rightarrow>
          if end_ix ap \<le> start ap then Inr False
          else (case tree of
              None \<Rightarrow> Inl Panic
            | Some t \<Rightarrow>
                if int (length (leaves t)) < uint (end_ix ap) then Inr False
                else (case deref (heap t) (leaves t ! unat (start ap)) of
                    Inl e \<Rightarrow> Inl e
                  | Inr n \<Rightarrow>
                      (case verifyLoop H (hash n) (siblings_agg ap) (directions_agg ap) of
                         Inl e \<Rightarrow> Inl e
                       | Inr currentHash \<Rightarrow> Inr (currentHash = rt)))))"

section \<open>Auxiliary definitions for the statements\<close>

text \<open>A cheap injective stand-in for the hash, used at concrete inputs.\<close>

definition tagHash :: hasher where
  "tagHash s = CHR ''#'' # s"

text \<open>Every entry of \<^verbatim>\<open>t.leaves\<close> points to a node of the heap (none is nil).\<close>

definition leavesAllocated :: "MerkleTree \<Rightarrow> bool" where
  "leavesAllocated t \<longleftrightarrow>
     (\<forall>p\<in>set (leaves t). case p of None \<Rightarrow> False | Some a \<Rightarrow> a < length (heap t))"

text \<open>The hash a proof commits to, in the words of the specification: starting from the
  hash of the element, each sibling is hashed in with the direction paired with it, on the
  left when the direction is true and on the right otherwise.\<close>

definition recomputedRoot :: "hasher \<Rightarrow> string \<Rightarrow> string list \<Rightarrow> bool list \<Rightarrow> string" where
  "recomputedRoot H h0 sibs dirs =
     foldl (\<lambda>current (sibling, direction).
              if direction then hashNode H sibling current else hashNode H current sibling)
       h0 (zip sibs dirs)"

text \<open>
  The invariant of the arena. \<open>structOk\<close>: the parent of a node lies above it and has it as
  a child; a node has no child or two distinct ones, both below it and pointing back.
  \<open>hashOk\<close>: the hash of a node with children is the node hash of their hashes.
  \<open>forest\<close>: every slot is linked and hashed so, and the nodes without parent are
  exactly the given ones. \<open>wfTree\<close>: the heap is a forest with the single root
  \<^verbatim>\<open>t.root\<close>, and \<^verbatim>\<open>t.leaves\<close> lists distinct childless nodes.
\<close>

text \<open>
  \<open>sameShape\<close>: two heaps with the same nodes and links (the hashes may differ).
  \<open>hashInvariant\<close>: every node of the heap that has a child has two, and its hash is the
  node hash of their hashes. \<open>tracks H xs t\<close>: \<open>t\<close> was built by \<^verbatim>\<open>NewMerkleTree\<close> and
  went through any number of \<^verbatim>\<open>UpdateElement\<close> calls, successful or not, and \<open>xs\<close> is the
  element of every leaf: the elements given, the empty string for the padding, and the
  element of the last successful update of the leaf.
\<close>

definition structOk :: "heap \<Rightarrow> nat \<Rightarrow> bool" where
  "structOk h a \<longleftrightarrow>
     (case parent (h ! a) of
        None \<Rightarrow> True
      | Some p \<Rightarrow> a < p \<and> p < length h \<and> (left (h ! p) = Some a \<or> right (h ! p) = Some a)) \<and>
     (case left (h ! a) of
        None \<Rightarrow> right (h ! a) = None
      | Some l \<Rightarrow> (case right (h ! a) of
          None \<Rightarrow> False
        | Some r \<Rightarrow> l \<noteq> r \<and> l < a \<and> r < a \<and>
            parent (h ! l) = Some a \<and> parent (h ! r) = Some a))"

definition hashOk :: "hasher \<Rightarrow> heap \<Rightarrow> nat \<Rightarrow> bool" where
  "hashOk H h a \<longleftrightarrow>
     (case left (h ! a) of
        None \<Rightarrow> True
      | Some l \<Rightarrow> (case right (h ! a) of
          None \<Rightarrow> True
        | Some r \<Rightarrow> hash (h ! a) = hashNode H (hash (h ! l)) (hash (h ! r))))"

definition forest :: "hasher \<Rightarrow> heap \<Rightarrow> ptr list \<Rightarrow> bool" where
  "forest H h roots \<longleftrightarrow>
     distinct roots \<and>
     (\<forall>a\<in>{..<length h}. structOk h a \<and> hashOk H h a \<and>
        ((parent (h ! a) = None) = (Some a \<in> set roots))) \<and>
     (\<forall>p\<in>set roots. case p of None \<Rightarrow> False | Some a \<Rightarrow> a < length h)"

definition wfTree :: "hasher \<Rightarrow> MerkleTree \<Rightarrow> bool" where
  "wfTree H t \<longleftrightarrow>
     forest H (heap t) [root t] \<and> distinct (leaves t) \<and>
     (\<forall>p\<in>set (leaves t). case p of
          None \<Rightarrow> False
        | Some a \<Rightarrow> a < length (heap t) \<and> left (heap t ! a) = None) \<and>
     int (length (leaves t)) < 2 ^ 63"

definition sameShape :: "heap \<Rightarrow> heap \<Rightarrow> bool" where
  "sameShape h h' \<longleftrightarrow>
     length h' = length h \<and>
     (\<forall>x\<in>{..<length h}. left (h' ! x) = left (h ! x) \<and> right (h' ! x) = right (h ! x) \<and>
        parent (h' ! x) = parent (h ! x))"

definition hashInvariant :: "hasher \<Rightarrow> MerkleTree \<Rightarrow> bool" where
  "hashInvariant H t \<longleftrightarrow>
     (\<forall>n\<in>set (heap t).
        if left n = None \<and> right n = None then True
        else (case deref (heap t) (left n) of
            Inl e \<Rightarrow> False
          | Inr l \<Rightarrow> (case deref (heap t) (right n) of
              Inl e \<Rightarrow> False
            | Inr r \<Rightarrow> hash n = hashNode H (hash l) (hash r))))"

inductive tracks :: "hasher \<Rightarrow> string list \<Rightarrow> MerkleTree \<Rightarrow> bool" for H :: hasher where
  built: "NewMerkleTree H es = Inr t \<Longrightarrow>
     tracks H (es @ replicate (length (leaves t) - length es) '''') t"
| updated: "tracks H xs t \<Longrightarrow> UpdateElement H t index x = Some (None, t') \<Longrightarrow>
     tracks H (xs[unat index := x]) t'"
| failed: "tracks H xs t \<Longrightarrow> UpdateElement H t index x = Some (Some e, t') \<Longrightarrow>
     tracks H xs t'"

text \<open>\<open>smear\<close>: the five shift-and-or steps of \<^verbatim>\<open>getNextPowerOfTwo\<close>, between \<^verbatim>\<open>n--\<close> and
  \<^verbatim>\<open>n + 1\<close>.\<close>

definition smear :: "64 word \<Rightarrow> 64 word" where
  "smear m =
     (let n = m;
          n = n OR signed_drop_bit 1 n;
          n = n OR signed_drop_bit 2 n;
          n = n OR signed_drop_bit 4 n;
          n = n OR signed_drop_bit 8 n;
          n = n OR signed_drop_bit 16 n
      in n)"

section \<open>Concrete runs\<close>

text \<open>
  C7: building from the three elements "some", "test", "elements" pads to four leaves, and
  the root hash is the node hash of the two pair hashes, the fourth leaf being the hash of
  the empty string.
\<close>

theorem NewMerkleTree_three_elements:
  "map_sum id (\<lambda>t. (length (leaves t), getRoot t))
       (NewMerkleTree H [''some'', ''test'', ''elements'']) =
     Inr (4, Inr (hashNode H (hashNode H (hashLeaf H ''some'') (hashLeaf H ''test''))
                            (hashNode H (hashLeaf H ''elements'') (hashLeaf H ''''))))"
  by (simp add: NewMerkleTree_def getNextPowerOfTwo_def word_sle_eq padLeaves.simps
      buildLevels.simps Let_def deref_def setParent_def newLeaf_def getRoot_def)

text \<open>
  C5: \<^verbatim>\<open>getNextPowerOfTwo\<close> smears the bits of \<open>n - 1\<close> over 31 positions only. At
  \<open>n = 2^32 + 1\<close> the result is \<open>2^33 - 1\<close>, which is no power of two.
\<close>

theorem getNextPowerOfTwo_above_2_32:
  "getNextPowerOfTwo 4294967297 = 8589934591 \<and> (\<forall>k. sint (getNextPowerOfTwo 4294967297) \<noteq> 2 ^ k)"
proof -
  have v: "getNextPowerOfTwo 4294967297 = 8589934591"
    by (simp add: getNextPowerOfTwo_def word_sle_eq)
  have s: "sint (8589934591 :: 64 word) = 8589934591" by simp
  have "(2::int) ^ k \<noteq> 8589934591" for k
  proof (cases k)
    case 0
    then show ?thesis by simp
  next
    case (Suc j)
    have "even ((2::int) ^ Suc j)" by simp
    moreover have "odd (8589934591::int)" by simp
    ultimately show ?thesis using Suc by metis
  qed
  with v s show ?thesis by simp
qed

text \<open>
  C3: on the tree built from the single element "one", the index \<open>2^63\<close> passes the
  guard \<^verbatim>\<open>int(index) >= len(t.leaves)\<close> (the conversion is negative) and
  \<^verbatim>\<open>t.leaves[index]\<close> panics, in \<^verbatim>\<open>GetProof\<close> and in \<^verbatim>\<open>UpdateElement\<close>.
\<close>

theorem GetProof_UpdateElement_huge_index:
  "NewMerkleTree H [''one''] =
     Inr \<lparr>heap = [newLeaf (hashLeaf H ''one'')], root = Some 0, leaves = [Some 0]\<rparr> \<and>
   GetProof \<lparr>heap = [newLeaf (hashLeaf H ''one'')], root = Some 0, leaves = [Some 0]\<rparr>
       9223372036854775808 = Some (Inl Panic) \<and>
   UpdateElement H \<lparr>heap = [newLeaf (hashLeaf H ''one'')], root = Some 0, leaves = [Some 0]\<rparr>
       9223372036854775808 x =
     Some (Some Panic, \<lparr>heap = [newLeaf (hashLeaf H ''one'')], root = Some 0, leaves = [Some 0]\<rparr>)"
  by (simp add: NewMerkleTree_def getNextPowerOfTwo_def word_sle_eq padLeaves.simps
      buildLevels.simps Let_def GetProof_def UpdateElement_def)

text \<open>
  C4: on the same tree, \<^verbatim>\<open>GetAggregatedProof(0, 2^63)\<close> passes the guard
  \<^verbatim>\<open>int(endIndex) > len(t.leaves)\<close> and returns a proof, although the end index is far
  beyond the single leaf.
\<close>

theorem GetAggregatedProof_huge_end:
  "GetAggregatedProof \<lparr>heap = [newLeaf (hashLeaf H ''one'')], root = Some 0, leaves = [Some 0]\<rparr>
       0 9223372036854775808 =
     Some (Inr \<lparr>start = 0, end_ix = 9223372036854775808, siblings_agg = [], directions_agg = []\<rparr>)"
  by (simp add: GetAggregatedProof_def collectPath.simps)

section \<open>Verification\<close>

text \<open>
  C2 (as stated, refuted): a proof with one sibling and no direction makes
  \<^verbatim>\<open>VerifyProof\<close> panic at \<^verbatim>\<open>proof.directions[0]\<close>, and a nil aggregated proof makes
  \<^verbatim>\<open>VerifyAggregatedProof\<close> panic at \<^verbatim>\<open>aggProof.start\<close>.
\<close>

theorem VerifyProof_panics_counterexample:
  "VerifyProof tagHash ''r'' \<lparr>hElement = ''x'', siblings = [''a''], directions = []\<rparr> = Inl Panic \<and>
   VerifyAggregatedProof tagHash ''r'' None
     (Some \<lparr>heap = [newLeaf ''x''], root = Some 0, leaves = [Some 0]\<rparr>) = Inl Panic"
  by (simp add: VerifyProof_def VerifyAggregatedProof_def)

lemma verifyLoop_aligned:
  "length ss \<le> length ds \<Longrightarrow> verifyLoop H cur ss ds = Inr (recomputedRoot H cur ss ds)"
  by (induction H cur ss ds rule: verifyLoop.induct) (simp_all add: recomputedRoot_def)

lemma verifyLoop_short:
  "length ds < length ss \<Longrightarrow> verifyLoop H cur ss ds = Inl Panic"
  by (induction H cur ss ds rule: verifyLoop.induct) simp_all

lemma leavesAllocated_start:
  assumes se: "start ap < end_ix ap" and el: "uint (end_ix ap) \<le> int (length (leaves t))"
    and la: "leavesAllocated t"
  shows "deref (heap t) (leaves t ! unat (start ap)) =
           Inr (heap t ! the (leaves t ! unat (start ap)))"
proof -
  from se have "unat (start ap) < unat (end_ix ap)" by (simp only: word_less_nat_alt)
  moreover from el have "unat (end_ix ap) \<le> length (leaves t)"
    by (simp only: unat_eq_nat_uint nat_le_iff)
  ultimately have "unat (start ap) < length (leaves t)" by simp
  then have "leaves t ! unat (start ap) \<in> set (leaves t)" by simp
  with la obtain a where "leaves t ! unat (start ap) = Some a" "a < length (heap t)"
    by (auto simp: leavesAllocated_def split: option.splits)
  then show ?thesis by (simp add: deref_def)
qed

text \<open>
  C2 (amended): for a proof with at least as many directions as siblings, \<^verbatim>\<open>VerifyProof\<close>
  returns a boolean, true exactly when the hash recomputed from the proof is the root (so
  false for any mismatch). \<^verbatim>\<open>VerifyAggregatedProof\<close>, on a proof that is not nil, returns
  false when \<open>start \<ge> end\<close>, and on a tree that is not nil, false when \<open>end\<close> exceeds the
  number of leaves; with the indices in range, leaf entries that are not nil and at least
  as many directions as siblings it returns a boolean, true exactly when the hash
  recomputed from the leaf at \<open>start\<close> is the root. Neither function checks the alignment:
  with fewer directions than siblings the read \<^verbatim>\<open>directions[i]\<close> panics, and
  \<^verbatim>\<open>VerifyAggregatedProof\<close> panics on a nil proof, and on a nil tree when \<open>start < end\<close>.
\<close>

theorem Verify_returns_bool_when_aligned:
  "(length (siblings p) \<le> length (directions p) \<longrightarrow>
      VerifyProof H rt p =
        Inr (recomputedRoot H (hElement p) (siblings p) (directions p) = rt)) \<and>
   (length (directions p) < length (siblings p) \<longrightarrow> VerifyProof H rt p = Inl Panic) \<and>
   (end_ix ap \<le> start ap \<longrightarrow> VerifyAggregatedProof H rt (Some ap) tree = Inr False) \<and>
   (int (length (leaves t)) < uint (end_ix ap) \<longrightarrow>
      VerifyAggregatedProof H rt (Some ap) (Some t) = Inr False) \<and>
   (start ap < end_ix ap \<longrightarrow> uint (end_ix ap) \<le> int (length (leaves t)) \<longrightarrow>
    leavesAllocated t \<longrightarrow>
      (length (siblings_agg ap) \<le> length (directions_agg ap) \<longrightarrow>
         VerifyAggregatedProof H rt (Some ap) (Some t) =
           Inr (recomputedRoot H (hash (heap t ! the (leaves t ! unat (start ap))))
                  (siblings_agg ap) (directions_agg ap) = rt)) \<and>
      (length (directions_agg ap) < length (siblings_agg ap) \<longrightarrow>
         VerifyAggregatedProof H rt (Some ap) (Some t) = Inl Panic)) \<and>
   VerifyAggregatedProof H rt None tree = Inl Panic \<and>
   (start ap < end_ix ap \<longrightarrow> VerifyAggregatedProof H rt (Some ap) None = Inl Panic)"
proof (intro conjI impI)
  assume "length (siblings p) \<le> length (directions p)"
  then show "VerifyProof H rt p =
      Inr (recomputedRoot H (hElement p) (siblings p) (directions p) = rt)"
    by (simp add: VerifyProof_def verifyLoop_aligned)
next
  assume "length (directions p) < length (siblings p)"
  then show "VerifyProof H rt p = Inl Panic"
    by (simp add: VerifyProof_def verifyLoop_short)
next
  assume "end_ix ap \<le> start ap"
  then show "VerifyAggregatedProof H rt (Some ap) tree = Inr False"
    by (simp add: VerifyAggregatedProof_def)
next
  assume "int (length (leaves t)) < uint (end_ix ap)"
  then show "VerifyAggregatedProof H rt (Some ap) (Some t) = Inr False"
    by (simp add: VerifyAggregatedProof_def)
next
  assume se: "start ap < end_ix ap" and el: "uint (end_ix ap) \<le> int (length (leaves t))"
    and la: "leavesAllocated t"
    and len: "length (siblings_agg ap) \<le> length (directions_agg ap)"
  from se have g1: "\<not> end_ix ap \<le> start ap" by simp
  from el have g2: "\<not> int (length (leaves t)) < uint (end_ix ap)" by simp
  show "VerifyAggregatedProof H rt (Some ap) (Some t) =
      Inr (recomputedRoot H (hash (heap t ! the (leaves t ! unat (start ap))))
             (siblings_agg ap) (directions_agg ap) = rt)"
    by (simp add: VerifyAggregatedProof_def g1 g2
        leavesAllocated_start[OF se el la] verifyLoop_aligned[OF len])
next
  assume se: "start ap < end_ix ap" and el: "uint (end_ix ap) \<le> int (length (leaves t))"
    and la: "leavesAllocated t"
    and len: "length (directions_agg ap) < length (siblings_agg ap)"
  from se have g1: "\<not> end_ix ap \<le> start ap" by simp
  from el have g2: "\<not> int (length (leaves t)) < uint (end_ix ap)" by simp
  show "VerifyAggregatedProof H rt (Some ap) (Some t) = Inl Panic"
    by (simp add: VerifyAggregatedProof_def g1 g2
        leavesAllocated_start[OF se el la] verifyLoop_short[OF len])
next
  show "VerifyAggregatedProof H rt None tree = Inl Panic"
    by (simp add: VerifyAggregatedProof_def)
next
  assume "start ap < end_ix ap"
  then have "\<not> end_ix ap \<le> start ap" by simp
  then show "VerifyAggregatedProof H rt (Some ap) None = Inl Panic"
    by (simp add: VerifyAggregatedProof_def)
qed

theorem Verify_returns_bool_when_aligned_witness:
  "VerifyProof tagHash ''#ax'' \<lparr>hElement = ''x'', siblings = [''a''], directions = [True]\<rparr>
     = Inr True \<and>
   VerifyProof tagHash ''r'' \<lparr>hElement = ''x'', siblings = [''a''], directions = [True]\<rparr>
     = Inr False \<and>
   VerifyProof tagHash ''r'' \<lparr>hElement = ''x'', siblings = [''a'', ''b''], directions = [True]\<rparr>
     = Inl Panic \<and>
   VerifyAggregatedProof tagHash ''#xa''
     (Some \<lparr>start = 0, end_ix = 1, siblings_agg = [''a''], directions_agg = [False]\<rparr>)
     (Some \<lparr>heap = [newLeaf ''x''], root = Some 0, leaves = [Some 0]\<rparr>) = Inr True \<and>
   VerifyAggregatedProof tagHash ''r''
     (Some \<lparr>start = 0, end_ix = 1, siblings_agg = [''a''], directions_agg = [False]\<rparr>)
     (Some \<lparr>heap = [newLeaf ''x''], root = Some 0, leaves = [Some 0]\<rparr>) = Inr False \<and>
   VerifyAggregatedProof tagHash ''r''
     (Some \<lparr>start = 0, end_ix = 1, siblings_agg = [''a''], directions_agg = []\<rparr>)
     (Some \<lparr>heap = [newLeaf ''x''], root = Some 0, leaves = [Some 0]\<rparr>) = Inl Panic \<and>
   VerifyAggregatedProof tagHash ''#xa''
     (Some \<lparr>start = 0, end_ix = 2, siblings_agg = [''a''], directions_agg = [False]\<rparr>)
     (Some \<lparr>heap = [newLeaf ''x''], root = Some 0, leaves = [Some 0]\<rparr>) = Inr False \<and>
   VerifyAggregatedProof tagHash ''#xa''
     (Some \<lparr>start = 1, end_ix = 1, siblings_agg = [''a''], directions_agg = [False]\<rparr>)
     None = Inr False \<and>
   VerifyAggregatedProof tagHash ''#xa''
     (Some \<lparr>start = 0, end_ix = 1, siblings_agg = [''a''], directions_agg = [False]\<rparr>)
     None = Inl Panic"
  using
    Verify_returns_bool_when_aligned [where H = tagHash and rt = "''#ax''"
      and p = "\<lparr>hElement = ''x'', siblings = [''a''], directions = [True]\<rparr>"]
    Verify_returns_bool_when_aligned [where H = tagHash and rt = "''r''"
      and p = "\<lparr>hElement = ''x'', siblings = [''a''], directions = [True]\<rparr>"
      and ap = "\<lparr>start = 0, end_ix = 1, siblings_agg = [''a''], directions_agg = [False]\<rparr>"
      and t = "\<lparr>heap = [newLeaf ''x''], root = Some 0, leaves = [Some 0]\<rparr>"]
    Verify_returns_bool_when_aligned [where H = tagHash and rt = "''r''"
      and p = "\<lparr>hElement = ''x'', siblings = [''a'', ''b''], directions = [True]\<rparr>"
      and ap = "\<lparr>start = 0, end_ix = 1, siblings_agg = [''a''], directions_agg = []\<rparr>"
      and t = "\<lparr>heap = [newLeaf ''x''], root = Some 0, leaves = [Some 0]\<rparr>"]
    Verify_returns_bool_when_aligned [where H = tagHash and rt = "''#xa''"
      and ap = "\<lparr>start = 0, end_ix = 1, siblings_agg = [''a''], directions_agg = [False]\<rparr>"
      and t = "\<lparr>heap = [newLeaf ''x''], root = Some 0, leaves = [Some 0]\<rparr>"
      and tree = None]
    Verify_returns_bool_when_aligned [where H = tagHash and rt = "''#xa''"
      and ap = "\<lparr>start = 0, end_ix = 2, siblings_agg = [''a''], directions_agg = [False]\<rparr>"
      and t = "\<lparr>heap = [newLeaf ''x''], root = Some 0, leaves = [Some 0]\<rparr>"]
    Verify_returns_bool_when_aligned [where H = tagHash and rt = "''#xa''"
      and ap = "\<lparr>start = 1, end_ix = 1, siblings_agg = [''a''], directions_agg = [False]\<rparr>"
      and tree = None]
  by (simp add: leavesAllocated_def recomputedRoot_def tagHash_def hashNode_def newLeaf_def)

text \<open>
  C9: two aggregated proofs over the same tree that differ only in their end field, both
  with \<open>start < end \<le> len(leaves)\<close>, get the same answer from
  \<^verbatim>\<open>VerifyAggregatedProof\<close>.
\<close>

theorem VerifyAggregatedProof_ignores_end:
  assumes "start p < end_ix p" and "uint (end_ix p) \<le> int (length (leaves t))"
    and "start p < e" and "uint e \<le> int (length (leaves t))"
  shows "VerifyAggregatedProof H rt (Some (p\<lparr>end_ix := e\<rparr>)) (Some t) =
         VerifyAggregatedProof H rt (Some p) (Some t)"
  using assms by (simp add: VerifyAggregatedProof_def not_le[symmetric] cong: sum.case_cong)

theorem VerifyAggregatedProof_ignores_end_witness:
  "VerifyAggregatedProof tagHash ''r''
     (Some \<lparr>start = 0, end_ix = 2, siblings_agg = [''#b''], directions_agg = [False]\<rparr>)
     (Some \<lparr>heap = [\<lparr>hash = ''#a'', left = None, right = None, parent = Some 2\<rparr>,
              \<lparr>hash = ''#b'', left = None, right = None, parent = Some 2\<rparr>,
              \<lparr>hash = ''##a#b'', left = Some 0, right = Some 1, parent = None\<rparr>],
       root = Some 2, leaves = [Some 0, Some 1]\<rparr>) =
   VerifyAggregatedProof tagHash ''r''
     (Some \<lparr>start = 0, end_ix = 1, siblings_agg = [''#b''], directions_agg = [False]\<rparr>)
     (Some \<lparr>heap = [\<lparr>hash = ''#a'', left = None, right = None, parent = Some 2\<rparr>,
              \<lparr>hash = ''#b'', left = None, right = None, parent = Some 2\<rparr>,
              \<lparr>hash = ''##a#b'', left = Some 0, right = Some 1, parent = None\<rparr>],
       root = Some 2, leaves = [Some 0, Some 1]\<rparr>)"
  using VerifyAggregatedProof_ignores_end [of
      "\<lparr>start = 0, end_ix = 1, siblings_agg = [''#b''], directions_agg = [False]\<rparr>"
      "\<lparr>heap = [\<lparr>hash = ''#a'', left = None, right = None, parent = Some 2\<rparr>,
              \<lparr>hash = ''#b'', left = None, right = None, parent = Some 2\<rparr>,
              \<lparr>hash = ''##a#b'', left = Some 0, right = Some 1, parent = None\<rparr>],
       root = Some 2, leaves = [Some 0, Some 1]\<rparr>" 2 tagHash "''r''"]
  by simp

section \<open>The build establishes the invariant\<close>

lemma forest_step:
  assumes f: "forest H h (Some a # Some b # rest)"
    and c: "c = length h"
    and h3: "h3 = setParent (setParent (h @ [\<lparr>hash = hashNode H (hash (h ! a)) (hash (h ! b)),
                          left = Some a, right = Some b, parent = None\<rparr>]) (Some a) (Some c)) (Some b) (Some c)"
  shows "forest H h3 (rest @ [Some c])"
proof -
  from f have ab: "a \<noteq> b" "a < c" "b < c" "Some a \<notin> set rest" "Some b \<notin> set rest" "distinct rest"
    by (auto simp: forest_def c)
  from f have rts: "\<And>x. Some x \<in> set rest \<Longrightarrow> x < c" and nn: "None \<notin> set rest"
    by (auto simp: forest_def c split: option.splits)
  have cfresh: "Some c \<notin> set rest" using rts by blast
  have old: "\<And>x. x < c \<Longrightarrow> structOk h x \<and> hashOk H h x \<and> ((parent (h ! x) = None) = (x = a \<or> x = b \<or> Some x \<in> set rest))"
    using f by (simp add: forest_def c)
  have pa: "parent (h ! a) = None" "parent (h ! b) = None"
    using old[of a] old[of b] ab by simp_all
  have len: "length h3 = Suc c" by (simp add: h3 setParent_def c)
  have h3c: "h3 ! c = \<lparr>hash = hashNode H (hash (h ! a)) (hash (h ! b)),
                          left = Some a, right = Some b, parent = None\<rparr>"
    using ab by (simp add: h3 setParent_def c nth_append)
  have h3a: "h3 ! a = (h ! a)\<lparr>parent := Some c\<rparr>"
    using ab by (simp add: h3 setParent_def c nth_append nth_list_update)
  have h3b: "h3 ! b = (h ! b)\<lparr>parent := Some c\<rparr>"
    using ab by (simp add: h3 setParent_def c nth_append nth_list_update)
  have h3o: "\<And>x. x < c \<Longrightarrow> x \<noteq> a \<Longrightarrow> x \<noteq> b \<Longrightarrow> h3 ! x = h ! x"
    using ab by (simp add: h3 setParent_def c nth_append nth_list_update)
  have fld: "left (h3 ! x) = left (h ! x) \<and> right (h3 ! x) = right (h ! x) \<and> hash (h3 ! x) = hash (h ! x)" if "x < c" for x
    using h3a h3b h3o[of x] that by (cases "x = a"; cases "x = b"; simp)
  have par: "parent (h3 ! x) = (if x = a \<or> x = b then Some c else parent (h ! x))" if "x < c" for x
    using h3a h3b h3o[of x] that by (cases "x = a"; cases "x = b"; simp)
  have so: "structOk h3 x" if x: "x < c" for x
  proof -
    from old[OF x] have so: "structOk h x" by simp
    have P: "case parent (h3 ! x) of None \<Rightarrow> True
      | Some p \<Rightarrow> x < p \<and> p < length h3 \<and> (left (h3 ! p) = Some x \<or> right (h3 ! p) = Some x)"
    proof (cases "x = a \<or> x = b")
      case True
      then show ?thesis using par[OF x] x len h3c by auto
    next
      case False
      show ?thesis
      proof (cases "parent (h ! x)")
        case None
        then show ?thesis using par[OF x] False by simp
      next
        case (Some p)
        with so have "x < p" "p < c" "left (h ! p) = Some x \<or> right (h ! p) = Some x"
          by (simp_all add: structOk_def c)
        then show ?thesis using par[OF x] False Some fld[of p] len by simp
      qed
    qed
    have C: "case left (h3 ! x) of None \<Rightarrow> right (h3 ! x) = None
      | Some l \<Rightarrow> (case right (h3 ! x) of None \<Rightarrow> False
        | Some r \<Rightarrow> l \<noteq> r \<and> l < x \<and> r < x \<and> parent (h3 ! l) = Some x \<and> parent (h3 ! r) = Some x)"
    proof (cases "left (h ! x)")
      case None
      then show ?thesis using so fld[OF x] by (simp add: structOk_def)
    next
      case (Some l)
      with so obtain r where r: "right (h ! x) = Some r" "l \<noteq> r" "l < x" "r < x"
        "parent (h ! l) = Some x" "parent (h ! r) = Some x"
        by (auto simp: structOk_def split: option.splits)
      have "l < c" "r < c" using r x by simp_all
      moreover have "l \<noteq> a" "l \<noteq> b" "r \<noteq> a" "r \<noteq> b" using r pa by auto
      ultimately have "parent (h3 ! l) = Some x" "parent (h3 ! r) = Some x"
        using par[of l] par[of r] r by simp_all
      then show ?thesis using Some r fld[OF x] by simp
    qed
    from P C show ?thesis by (simp add: structOk_def)
  qed
  have ho: "hashOk H h3 x" if x: "x < c" for x
  proof (cases "left (h ! x)")
    case None
    then show ?thesis using fld[OF x] by (simp add: hashOk_def)
  next
    case (Some l)
    from old[OF x] have so: "structOk h x" and hk: "hashOk H h x" by simp_all
    from Some so obtain r where r: "right (h ! x) = Some r" "l < x" "r < x"
      by (auto simp: structOk_def split: option.splits)
    have "l < c" "r < c" using r x by simp_all
    then show ?thesis using hk Some r fld[OF x] fld[of l] fld[of r] by (simp add: hashOk_def)
  qed
  show ?thesis
    unfolding forest_def
  proof (intro conjI ballI)
    show "distinct (rest @ [Some c])" using ab cfresh by simp
  next
    fix x assume "x \<in> {..<length h3}"
    then have xc: "x < c \<or> x = c" using len by auto
    show "structOk h3 x"
    proof (cases "x = c")
      case True
      then show ?thesis using h3c h3a h3b ab by (simp add: structOk_def)
    next
      case False
      with xc so show ?thesis by simp
    qed
    show "hashOk H h3 x"
    proof (cases "x = c")
      case True
      then show ?thesis using h3c fld[of a] fld[of b] ab by (simp add: hashOk_def)
    next
      case False
      with xc ho show ?thesis by simp
    qed
    show "(parent (h3 ! x) = None) = (Some x \<in> set (rest @ [Some c]))"
    proof (cases "x = c")
      case True
      then show ?thesis using h3c by simp
    next
      case False
      with xc have x: "x < c" by simp
      show ?thesis using par[OF x] old[OF x] x ab by auto
    qed
  next
    fix p assume p: "p \<in> set (rest @ [Some c])"
    show "case p of None \<Rightarrow> False | Some a \<Rightarrow> a < length h3"
      by (insert p rts len nn, cases p) (auto simp: less_Suc_eq)
  qed
qed

lemma forest_ptrs:
  "forest H h roots \<Longrightarrow> p \<in> set roots \<Longrightarrow> \<exists>a. p = Some a \<and> a < length h"
  by (cases p) (auto simp: forest_def)

lemma deref_Some: "a < length h \<Longrightarrow> deref h (Some a) = Inr (h ! a)"
  by (simp add: deref_def)

lemma deref_Inr: "deref h p = Inr n \<Longrightarrow> \<exists>a. p = Some a \<and> a < length h \<and> n = h ! a"
  by (cases p) (auto simp: deref_def split: if_splits)

lemma buildLevel_forest:
  "forest H h (lvs @ acc) \<Longrightarrow> buildLevel H h lvs acc = Inr (h', nxt) \<Longrightarrow> forest H h' nxt"
proof (induction H h lvs acc rule: buildLevel.induct)
  case (1 H h nextLevel)
  then show ?case by simp
next
  case (2 H h l nextLevel)
  then show ?case by simp
next
  case (3 H h l r rest nextLevel)
  from forest_ptrs[OF "3.prems"(1), of l] obtain a where a: "l = Some a" "a < length h" by auto
  from forest_ptrs[OF "3.prems"(1), of r] obtain b where b: "r = Some b" "b < length h" by auto
  let ?h3 = "setParent (setParent (h @ [\<lparr>hash = hashNode H (hash (h ! a)) (hash (h ! b)),
      left = Some a, right = Some b, parent = None\<rparr>]) (Some a) (Some (length h))) (Some b) (Some (length h))"
  have "forest H ?h3 ((rest @ nextLevel) @ [Some (length h)])"
    by (rule forest_step[where h = h and a = a and b = b]) (use "3.prems" a b in simp_all)
  then have f3: "forest H ?h3 (rest @ nextLevel @ [Some (length h)])" by simp
  have run: "buildLevel H ?h3 rest (nextLevel @ [Some (length h)]) = Inr (h', nxt)"
    using "3.prems"(2) a b by (simp add: deref_Some Let_def)
  show ?case
    using "3.IH"[of "h ! a" "h ! b", OF _ _ refl refl refl refl] f3 run a b
    by (simp add: deref_Some)
qed

lemma setParent_length: "length (setParent h p par) = length h"
  by (cases p) (simp_all add: setParent_def)

lemma setParent_frame:
  "left (setParent h p par ! x) = left (h ! x)"
  "right (setParent h p par ! x) = right (h ! x)"
  "hash (setParent h p par ! x) = hash (h ! x)"
proof -
  have "left (setParent h p par ! x) = left (h ! x) \<and> right (setParent h p par ! x) = right (h ! x) \<and>
     hash (setParent h p par ! x) = hash (h ! x)"
  proof (cases p)
    case None
    then show ?thesis by (simp add: setParent_def)
  next
    case (Some a)
    show ?thesis
    proof (cases "a < length h")
      case True
      then show ?thesis using Some by (cases "a = x") (simp_all add: setParent_def)
    next
      case False
      then show ?thesis using Some by (simp add: setParent_def list_update_beyond)
    qed
  qed
  then show "left (setParent h p par ! x) = left (h ! x)"
  "right (setParent h p par ! x) = right (h ! x)"
  "hash (setParent h p par ! x) = hash (h ! x)" by simp_all
qed

lemma buildLevel_frame:
  "buildLevel H h lvs acc = Inr (h', nxt) \<Longrightarrow>
     length h \<le> length h' \<and>
     (\<forall>x<length h. left (h' ! x) = left (h ! x) \<and> right (h' ! x) = right (h ! x) \<and>
        hash (h' ! x) = hash (h ! x))"
proof (induction H h lvs acc rule: buildLevel.induct)
  case (3 H h l r rest nextLevel)
  from "3.prems" obtain ln rn where d: "deref h l = Inr ln" "deref h r = Inr rn"
    by (auto split: sum.splits)
  let ?h3 = "setParent (setParent (h @ [\<lparr>hash = hashNode H (hash ln) (hash rn),
      left = l, right = r, parent = None\<rparr>]) l (Some (length h))) r (Some (length h))"
  have run: "buildLevel H ?h3 rest (nextLevel @ [Some (length h)]) = Inr (h', nxt)"
    using "3.prems" d by (simp add: Let_def)
  from "3.IH"[OF d refl refl refl refl run]
  have ih: "length ?h3 \<le> length h'"
    "\<And>x. x < length ?h3 \<Longrightarrow> left (h' ! x) = left (?h3 ! x) \<and> right (h' ! x) = right (?h3 ! x) \<and>
        hash (h' ! x) = hash (?h3 ! x)"
    by simp_all
  have l3: "length ?h3 = Suc (length h)" by (simp add: setParent_length)
  show ?case
  proof (intro conjI allI impI)
    show "length h \<le> length h'" using ih(1) l3 by simp
  next
    fix x assume "x < length h"
    then have "x < length ?h3" using l3 by simp
    from ih(2)[OF this] \<open>x < length h\<close>
    show "left (h' ! x) = left (h ! x)" "right (h' ! x) = right (h ! x)" "hash (h' ! x) = hash (h ! x)"
      by (simp_all add: setParent_frame nth_append)
  qed
qed simp_all

lemma buildLevel_succeeds:
  "forest H h (lvs @ acc) \<Longrightarrow> even (length lvs) \<Longrightarrow> \<exists>h' nxt. buildLevel H h lvs acc = Inr (h', nxt)"
proof (induction H h lvs acc rule: buildLevel.induct)
  case (3 H h l r rest nextLevel)
  from forest_ptrs[OF "3.prems"(1), of l] obtain a where a: "l = Some a" "a < length h" by auto
  from forest_ptrs[OF "3.prems"(1), of r] obtain b where b: "r = Some b" "b < length h" by auto
  let ?h3 = "setParent (setParent (h @ [\<lparr>hash = hashNode H (hash (h ! a)) (hash (h ! b)),
      left = Some a, right = Some b, parent = None\<rparr>]) (Some a) (Some (length h))) (Some b) (Some (length h))"
  have "forest H ?h3 ((rest @ nextLevel) @ [Some (length h)])"
    by (rule forest_step[where h = h and a = a and b = b]) (use "3.prems" a b in simp_all)
  then have f3: "forest H ?h3 (rest @ nextLevel @ [Some (length h)])" by simp
  show ?case
    using "3.IH"[of "h ! a" "h ! b", OF _ _ refl refl refl refl] f3 a b "3.prems"(2)
    by (simp add: deref_Some Let_def)
qed simp_all

lemma buildLevels_forest:
  "forest H h lvs \<Longrightarrow> buildLevels H h lvs allNodes = Inr (h', lastLevel, allNodes') \<Longrightarrow>
     forest H h' lastLevel \<and> length lastLevel \<le> 1 \<and> (lvs \<noteq> [] \<longrightarrow> lastLevel \<noteq> []) \<and>
     take (length allNodes) allNodes' = allNodes \<and> length allNodes \<le> length allNodes' \<and>
     length h \<le> length h' \<and>
     (\<forall>x<length h. left (h' ! x) = left (h ! x) \<and> right (h' ! x) = right (h ! x) \<and>
        hash (h' ! x) = hash (h ! x))"
proof (induction H h lvs allNodes rule: buildLevels.induct)
  case (1 H h lvs allNodes)
  show ?case
  proof (cases "1 < length lvs")
    case False
    with "1.prems"(2) have "h' = h" "lastLevel = lvs" "allNodes' = allNodes"
      by (simp_all add: buildLevels.simps[of H h lvs])
    with "1.prems"(1) False show ?thesis by (cases lvs) auto
  next
    case True
    with "1.prems"(2) obtain h1 nxt where
      bl: "buildLevel H h lvs [] = Inr (h1, nxt)" and
      rec: "buildLevels H h1 nxt (allNodes @ nxt) = Inr (h', lastLevel, allNodes')"
      by (auto simp: buildLevels.simps[of H h lvs] split: sum.splits)
    have f1: "forest H h1 nxt"
      using buildLevel_forest[of H h lvs "[]" h1 nxt] "1.prems"(1) bl by simp
    have ln: "length nxt = length lvs div 2" using buildLevel_length[OF bl] by simp
    with True have ne: "nxt \<noteq> []" by auto
    note fr = buildLevel_frame[OF bl]
    from "1.IH"[OF True bl refl f1 rec] ne
    have ih: "forest H h' lastLevel" "length lastLevel \<le> 1" "lastLevel \<noteq> []"
      "take (length (allNodes @ nxt)) allNodes' = allNodes @ nxt"
      "length (allNodes @ nxt) \<le> length allNodes'" "length h1 \<le> length h'"
      "\<And>x. x < length h1 \<Longrightarrow> left (h' ! x) = left (h1 ! x) \<and> right (h' ! x) = right (h1 ! x) \<and>
        hash (h' ! x) = hash (h1 ! x)"
      by simp_all
    have tk: "take (length allNodes) allNodes' = allNodes"
    proof -
      have "take (length allNodes) (take (length (allNodes @ nxt)) allNodes') = allNodes"
        unfolding ih(4) by simp
      then show ?thesis by (simp add: min_def)
    qed
    show ?thesis
      using ih(1-3,5-6) tk fr ih(7) by auto
  qed
qed

lemma allocLeaves_eq:
  "allocLeaves H h es lvs =
     (h @ map (\<lambda>e. newLeaf (hashLeaf H e)) es, lvs @ map Some [length h..<length h + length es])"
proof (induction es arbitrary: h lvs)
  case Nil
  then show ?case by simp
next
  case (Cons e es)
  have "[length h..<length h + Suc (length es)] = length h # [Suc (length h)..<Suc (length h) + length es]"
    using upt_conv_Cons[of "length h" "length h + Suc (length es)"] by simp
  then show ?case by (simp add: Cons.IH)
qed

lemma padLeaves_eq:
  "padLeaves H r h lvs =
     (h @ replicate (nat (r - int (length lvs))) (newLeaf (hashLeaf H '''')),
      lvs @ map Some [length h..<length h + nat (r - int (length lvs))])"
proof (induction H r h lvs rule: padLeaves.induct)
  case (1 H r h lvs)
  show ?case
  proof (cases "int (length lvs) < r")
    case False
    then show ?thesis by (simp add: padLeaves.simps[of H r h lvs])
  next
    case True
    then obtain k where k: "nat (r - int (length lvs)) = Suc k" "nat (r - int (length (lvs @ [Some (length h)]))) = k"
      by (cases "nat (r - int (length lvs))") auto
    have u: "[length h..<length h + Suc k] = length h # [Suc (length h)..<Suc (length h) + k]"
      using upt_conv_Cons[of "length h" "length h + Suc k"] by simp
    show ?thesis
      using "1.IH"[OF True] True k u
      by (simp add: padLeaves.simps[of H r h lvs] replicate_app_Cons_same)
  qed
qed

lemma forest_leaves: "forest H (map newLeaf hs) (map Some [0..<length hs])"
  by (auto simp: forest_def structOk_def hashOk_def newLeaf_def distinct_map inj_on_def)

lemma NewMerkleTree_Inr:
  assumes new: "NewMerkleTree H es = Inr t"
  shows "wfTree H t"
    and "leaves t = map Some [0..<length (leaves t)]"
    and "\<forall>i<length (leaves t).
           hash (heap t ! i) = hashLeaf H ((es @ replicate (length (leaves t) - length es) []) ! i)"
proof -
  define r where "r = sint (getNextPowerOfTwo (word_of_nat (length es)))"
  define k where "k = nat (r - int (length es))"
  define hs where "hs = map (hashLeaf H) es @ replicate k (hashLeaf H [])"
  define m where "m = length es + k"
  have m: "length hs = m" by (simp add: hs_def m_def)
  have h1: "map (\<lambda>e. newLeaf (hashLeaf H e)) es @ replicate k (newLeaf (hashLeaf H [])) = map newLeaf hs"
    by (simp add: hs_def)
  have lv1: "map Some [0..<length es] @ map Some [length es..<length es + k] = map Some [0..<m]"
    using upt_add_eq_append[of 0 "length es" k] by (simp add: m_def)
  from new have ne: "es \<noteq> []" by (auto simp: NewMerkleTree_def)
  have al: "allocLeaves H [] es [] = (map (\<lambda>e. newLeaf (hashLeaf H e)) es, map Some [0..<length es])"
    by (simp add: allocLeaves_eq)
  have pl: "padLeaves H r (map (\<lambda>e. newLeaf (hashLeaf H e)) es) (map Some [0..<length es]) =
      (map newLeaf hs, map Some [0..<m])"
    unfolding padLeaves_eq by (simp add: k_def[symmetric] h1 lv1)
  have eq: "NewMerkleTree H es =
      (case buildLevels H (map newLeaf hs) (map Some [0..<m]) (map Some [0..<m]) of
         Inl e \<Rightarrow> Inl e
       | Inr (h2, lastLevel, allNodes) \<Rightarrow>
           (case lastLevel of
              [] \<Rightarrow> Inl Panic
            | rt # _ \<Rightarrow>
                if r < 0 \<or> int (length allNodes) < r then Inl Panic
                else Inr \<lparr>heap = h2, root = rt, leaves = take (nat r) allNodes\<rparr>))"
    unfolding NewMerkleTree_def al r_def[symmetric] Let_def prod.case pl using ne by simp
  from new obtain h2 lastLevel allNodes where
    bl: "buildLevels H (map newLeaf hs) (map Some [0..<m]) (map Some [0..<m]) = Inr (h2, lastLevel, allNodes)"
    unfolding eq by (cases "buildLevels H (map newLeaf hs) (map Some [0..<m]) (map Some [0..<m])") auto
  from new obtain rt rest where
    ll: "lastLevel = rt # rest" and r0: "0 \<le> r" and rl: "r \<le> int (length allNodes)" and
    t: "t = \<lparr>heap = h2, root = rt, leaves = take (nat r) allNodes\<rparr>"
    unfolding eq bl by (cases lastLevel) (auto split: if_splits)
  from buildLevels_forest[OF _ bl] forest_leaves[of H hs] m
  have f2: "forest H h2 lastLevel" and l1: "length lastLevel \<le> 1"
    and tk: "take m allNodes = map Some [0..<m]"
    and len: "m \<le> length h2"
    and fr: "\<And>x. x < m \<Longrightarrow> left (h2 ! x) = None \<and> hash (h2 ! x) = hs ! x"
    by (simp_all add: newLeaf_def)
  from ll l1 have ll': "lastLevel = [rt]" by simp
  have rm: "nat r \<le> m" using r0 by (simp add: m_def k_def)
  have lvs: "take (nat r) allNodes = map Some [0..<nat r]"
  proof -
    have "take (nat r) allNodes = take (nat r) (take m allNodes)" using rm by (simp add: min_def)
    also have "\<dots> = map Some [0..<nat r]" unfolding tk using rm by (simp add: take_map min_def)
    finally show ?thesis .
  qed
  have rlt: "r < 2 ^ 63"
    unfolding r_def using sint_lt[of "getNextPowerOfTwo (word_of_nat (length es))"] by simp
  show "wfTree H t"
    unfolding wfTree_def t using f2 ll' lvs rm len fr rlt r0
    by (auto simp: distinct_map)
  show "leaves t = map Some [0..<length (leaves t)]"
    unfolding t using lvs by simp
  show "\<forall>i<length (leaves t).
           hash (heap t ! i) = hashLeaf H ((es @ replicate (length (leaves t) - length es) []) ! i)"
  proof (intro allI impI)
    fix i assume "i < length (leaves t)"
    then have i: "i < nat r" unfolding t lvs by simp
    with rm have "hash (h2 ! i) = hs ! i" using fr by simp
    also have "\<dots> = hashLeaf H ((es @ replicate (nat r - length es) []) ! i)"
      using i rm by (auto simp: hs_def nth_append m_def k_def)
    finally show "hash (heap t ! i) = hashLeaf H ((es @ replicate (length (leaves t) - length es) []) ! i)"
      unfolding t lvs by simp
  qed
qed

section \<open>Proofs of inclusion verify\<close>

lemma forest_root:
  "forest H h [Some \<rho>] \<Longrightarrow> \<rho> < length h \<and> parent (h ! \<rho>) = None"
  by (auto simp: forest_def)

lemma forest_parent:
  assumes f: "forest H h [Some \<rho>]" and a: "a < length h" and ne: "a \<noteq> \<rho>"
  shows "\<exists>p l r. parent (h ! a) = Some p \<and> a < p \<and> p < length h \<and>
           left (h ! p) = Some l \<and> right (h ! p) = Some r \<and> l \<noteq> r \<and> l < p \<and> r < p \<and>
           (l = a \<or> r = a) \<and> hash (h ! p) = hashNode H (hash (h ! l)) (hash (h ! r))"
proof -
  from f a have sa: "structOk h a" and pa: "(parent (h ! a) = None) = (a = \<rho>)"
    by (auto simp: forest_def)
  from pa ne obtain p where p: "parent (h ! a) = Some p" by auto
  with sa have ap: "a < p" "p < length h" and ch: "left (h ! p) = Some a \<or> right (h ! p) = Some a"
    by (simp_all add: structOk_def)
  from f ap have sp: "structOk h p" and hp: "hashOk H h p" by (auto simp: forest_def)
  from ch sp obtain l r where lr: "left (h ! p) = Some l" "right (h ! p) = Some r"
    "l \<noteq> r" "l < p" "r < p"
    by (cases "left (h ! p)"; cases "right (h ! p)") (auto simp: structOk_def)
  from hp lr have "hash (h ! p) = hashNode H (hash (h ! l)) (hash (h ! r))"
    by (simp add: hashOk_def)
  with p ap lr ch show ?thesis by auto
qed

lemma collectPath_forest:
  assumes f: "forest H h [Some \<rho>]"
  shows "a < length h \<Longrightarrow>
    \<exists>s d. collectPath h (Some \<rho>) (Some a) sibs dirs = Some (Inr (sibs @ s, dirs @ d)) \<and>
          verifyLoop H (hash (h ! a)) s d = Inr (hash (h ! \<rho>))"
proof (induction "length h - a" arbitrary: a sibs dirs rule: less_induct)
  case less
  show ?case
  proof (cases "a = \<rho>")
    case True
    have "collectPath h (Some \<rho>) (Some a) sibs dirs = Some (Inr (sibs @ [], dirs @ []))"
      using True by (subst collectPath.simps) simp
    moreover have "verifyLoop H (hash (h ! a)) [] [] = Inr (hash (h ! \<rho>))" using True by simp
    ultimately show ?thesis by blast
  next
    case False
    from forest_parent[OF f less.prems False] obtain p l r where
      p: "parent (h ! a) = Some p" "a < p" "p < length h" and
      lr: "left (h ! p) = Some l" "right (h ! p) = Some r" "l \<noteq> r" "l < p" "r < p" "l = a \<or> r = a" and
      hp: "hash (h ! p) = hashNode H (hash (h ! l)) (hash (h ! r))"
      by blast
    have lt: "length h - p < length h - a" using p by simp
    have lrl: "l < length h" "r < length h" using lr p by simp_all
    show ?thesis
    proof (cases "l = a")
      case True
      from less.hyps[OF lt p(3), of "sibs @ [hash (h ! r)]" "dirs @ [False]"] obtain s d where
        ih: "collectPath h (Some \<rho>) (Some p) (sibs @ [hash (h ! r)]) (dirs @ [False]) =
               Some (Inr ((sibs @ [hash (h ! r)]) @ s, (dirs @ [False]) @ d))"
            "verifyLoop H (hash (h ! p)) s d = Inr (hash (h ! \<rho>))"
        by blast
      have "collectPath h (Some \<rho>) (Some a) sibs dirs =
              Some (Inr (sibs @ (hash (h ! r) # s), dirs @ (False # d)))"
        using False less.prems p lr lrl True ih(1)
        by (subst collectPath.simps) (simp add: deref_def)
      moreover have "verifyLoop H (hash (h ! a)) (hash (h ! r) # s) (False # d) = Inr (hash (h ! \<rho>))"
        using ih(2) hp True by simp
      ultimately show ?thesis by blast
    next
      case nl: False
      with lr have ra: "r = a" by simp
      from less.hyps[OF lt p(3), of "sibs @ [hash (h ! l)]" "dirs @ [True]"] obtain s d where
        ih: "collectPath h (Some \<rho>) (Some p) (sibs @ [hash (h ! l)]) (dirs @ [True]) =
               Some (Inr ((sibs @ [hash (h ! l)]) @ s, (dirs @ [True]) @ d))"
            "verifyLoop H (hash (h ! p)) s d = Inr (hash (h ! \<rho>))"
        by blast
      have "collectPath h (Some \<rho>) (Some a) sibs dirs =
              Some (Inr (sibs @ (hash (h ! l) # s), dirs @ (True # d)))"
        using False less.prems p lr lrl nl ih(1)
        by (subst collectPath.simps) (simp add: deref_def)
      moreover have "verifyLoop H (hash (h ! a)) (hash (h ! l) # s) (True # d) = Inr (hash (h ! \<rho>))"
        using ih(2) hp ra by simp
      ultimately show ?thesis by blast
    qed
  qed
qed

lemma word64_of_nat_small:
  assumes "int i < 2 ^ 63"
  shows "unat (word_of_nat i :: 64 word) = i" and "sint (word_of_nat i :: 64 word) = int i"
proof -
  from assms have i: "i < 2 ^ 63" by (metis of_nat_less_numeral_power_cancel_iff)
  then show "unat (word_of_nat i :: 64 word) = i"
    by (simp add: unat_of_nat)
  have "sint (word_of_nat i :: 64 word) = signed_take_bit 63 (int i)"
    using signed_of_nat[where 'b = 64 and 'a = int, of i] by simp
  also have "\<dots> = int i"
    using assms by (simp add: signed_take_bit_int_eq_self)
  finally show "sint (word_of_nat i :: 64 word) = int i" .
qed

lemma wfTree_leaf:
  "wfTree H t \<Longrightarrow> i < length (leaves t) \<Longrightarrow>
     \<exists>a. leaves t ! i = Some a \<and> a < length (heap t) \<and> left (heap t ! a) = None"
proof -
  assume wf: "wfTree H t" and i: "i < length (leaves t)"
  from i have "leaves t ! i \<in> set (leaves t)" by simp
  with wf have "case leaves t ! i of None \<Rightarrow> False
      | Some a \<Rightarrow> a < length (heap t) \<and> left (heap t ! a) = None"
    unfolding wfTree_def by blast
  then show ?thesis by (cases "leaves t ! i") simp_all
qed

lemma wfTree_root:
  assumes "wfTree H t"
  shows "\<exists>\<rho>. root t = Some \<rho> \<and> \<rho> < length (heap t) \<and> forest H (heap t) [Some \<rho>] \<and>
           getRoot t = Inr (hash (heap t ! \<rho>))"
proof -
  from assms have f: "forest H (heap t) [root t]" by (simp add: wfTree_def)
  from forest_ptrs[OF f, of "root t"] obtain \<rho> where r: "root t = Some \<rho>" "\<rho> < length (heap t)"
    by auto
  with f show ?thesis by (simp add: getRoot_def deref_def)
qed

lemma GetProof_wf:
  assumes wf: "wfTree H t" and i: "i < length (leaves t)"
  shows "\<exists>p a \<rho>. GetProof t (word_of_nat i) = Some (Inr p) \<and> leaves t ! i = Some a \<and>
           hElement p = hash (heap t ! a) \<and> root t = Some \<rho> \<and>
           verifyLoop H (hElement p) (siblings p) (directions p) = Inr (hash (heap t ! \<rho>))"
proof -
  from wf i have "int i < 2 ^ 63" by (simp add: wfTree_def)
  note w = word64_of_nat_small[OF this]
  from wfTree_leaf[OF wf i] obtain a where a: "leaves t ! i = Some a" "a < length (heap t)" by blast
  from wfTree_root[OF wf] obtain \<rho> where r: "root t = Some \<rho>" "forest H (heap t) [Some \<rho>]" by blast
  from collectPath_forest[OF r(2) a(2), of "[]" "[]"] obtain s d where
    c: "collectPath (heap t) (Some \<rho>) (Some a) [] [] = Some (Inr (s, d))"
       "verifyLoop H (hash (heap t ! a)) s d = Inr (hash (heap t ! \<rho>))"
    by auto
  have "GetProof t (word_of_nat i) =
          Some (Inr \<lparr>hElement = hash (heap t ! a), siblings = s, directions = d\<rparr>)"
    using i a r c(1) by (simp add: GetProof_def w deref_def)
  with a r c(2) show ?thesis by simp
qed

lemma NewMerkleTree_abc:
  "NewMerkleTree tagHash [''a'', ''b'', ''c''] =
     Inr \<lparr>heap =
        [\<lparr>hash = ''#a'', left = None, right = None, parent = Some 4\<rparr>,
         \<lparr>hash = ''#b'', left = None, right = None, parent = Some 4\<rparr>,
         \<lparr>hash = ''#c'', left = None, right = None, parent = Some 5\<rparr>,
         \<lparr>hash = ''#'', left = None, right = None, parent = Some 5\<rparr>,
         \<lparr>hash = ''##a#b'', left = Some 0, right = Some 1, parent = Some 6\<rparr>,
         \<lparr>hash = ''##c#'', left = Some 2, right = Some 3, parent = Some 6\<rparr>,
         \<lparr>hash = ''###a#b##c#'', left = Some 4, right = Some 5, parent = None\<rparr>],
      root = Some 6, leaves = [Some 0, Some 1, Some 2, Some 3]\<rparr>"
  by (simp add: NewMerkleTree_def getNextPowerOfTwo_def word_sle_eq padLeaves.simps
      buildLevels.simps Let_def deref_def setParent_def newLeaf_def tagHash_def
      hashLeaf_def hashNode_def)

text \<open>
  C1: for every element sequence from which \<^verbatim>\<open>NewMerkleTree\<close> builds a tree and every
  index below \<^verbatim>\<open>len(t.leaves)\<close>, \<^verbatim>\<open>GetProof\<close> returns a proof and \<^verbatim>\<open>VerifyProof\<close>
  accepts it against the root of the tree.
\<close>

theorem GetProof_VerifyProof:
  assumes "NewMerkleTree H es = Inr t" and "i < length (leaves t)"
  shows "\<exists>p r. GetProof t (word_of_nat i) = Some (Inr p) \<and> getRoot t = Inr r \<and>
           VerifyProof H r p = Inr True"
proof -
  from assms(1) have wf: "wfTree H t" by (rule NewMerkleTree_Inr)
  from GetProof_wf[OF wf assms(2)] wfTree_root[OF wf] show ?thesis
    by (auto simp: VerifyProof_def)
qed

theorem GetProof_VerifyProof_witness:
  "\<exists>t. NewMerkleTree tagHash [''a'', ''b'', ''c''] = Inr t \<and> 2 < length (leaves t) \<and>
     (\<exists>p r. GetProof t (word_of_nat 2) = Some (Inr p) \<and> getRoot t = Inr r \<and>
        VerifyProof tagHash r p = Inr True)"
  using GetProof_VerifyProof [OF NewMerkleTree_abc, of 2] NewMerkleTree_abc by simp

text \<open>
  C10: every padding index (from the number of elements up to \<^verbatim>\<open>len(t.leaves)\<close>) is
  accepted by \<^verbatim>\<open>GetProof\<close>; the proof carries the leaf hash of the empty string and
  \<^verbatim>\<open>VerifyProof\<close> accepts it against the root.
\<close>

theorem GetProof_padding:
  assumes "NewMerkleTree H es = Inr t" and "length es \<le> i" and "i < length (leaves t)"
  shows "\<exists>p r. GetProof t (word_of_nat i) = Some (Inr p) \<and> hElement p = hashLeaf H '''' \<and>
           getRoot t = Inr r \<and> VerifyProof H r p = Inr True"
proof -
  from assms(1) have wf: "wfTree H t" by (rule NewMerkleTree_Inr)
  from NewMerkleTree_Inr(2)[OF assms(1)] assms(3) have li: "leaves t ! i = Some i"
    by (metis add_0 length_map length_upt minus_nat.diff_0 nth_map nth_upt)
  from NewMerkleTree_Inr(3)[OF assms(1)] assms(2,3)
  have hi: "hash (heap t ! i) = hashLeaf H ''''"
    by (simp add: nth_append)
  from GetProof_wf[OF wf assms(3)] wfTree_root[OF wf] li hi show ?thesis
    by (auto simp: VerifyProof_def)
qed

theorem GetProof_padding_witness:
  "\<exists>t. NewMerkleTree tagHash [''a'', ''b'', ''c''] = Inr t \<and>
     length [''a'', ''b'', ''c''] \<le> 3 \<and> 3 < length (leaves t) \<and>
     (\<exists>p r. GetProof t (word_of_nat 3) = Some (Inr p) \<and> hElement p = hashLeaf tagHash '''' \<and>
        getRoot t = Inr r \<and> VerifyProof tagHash r p = Inr True)"
  using GetProof_padding [OF NewMerkleTree_abc, of 3] NewMerkleTree_abc by simp

section \<open>Updates keep the invariant\<close>

lemma sameShape_refl: "sameShape h h"
  by (simp add: sameShape_def)

lemma sameShape_trans: "sameShape h h' \<Longrightarrow> sameShape h' h'' \<Longrightarrow> sameShape h h''"
  by (simp add: sameShape_def)

lemma sameShape_hash_update:
  "sameShape h (h[p := (h ! p)\<lparr>hash := v\<rparr>])"
  by (cases "p < length h") (auto simp: sameShape_def nth_list_update)

lemma structOk_sameShape:
  assumes s: "sameShape h h'" and x: "x < length h" and ok: "structOk h x"
  shows "structOk h' x"
proof -
  have f: "left (h' ! y) = left (h ! y)" "right (h' ! y) = right (h ! y)"
    "parent (h' ! y) = parent (h ! y)" if "y < length h" for y
    using s that by (simp_all add: sameShape_def)
  have len: "length h' = length h" using s by (simp add: sameShape_def)
  have P: "case parent (h' ! x) of None \<Rightarrow> True
      | Some p \<Rightarrow> x < p \<and> p < length h' \<and> (left (h' ! p) = Some x \<or> right (h' ! p) = Some x)"
  proof (cases "parent (h ! x)")
    case None
    then show ?thesis using f(3)[OF x] by simp
  next
    case (Some p)
    with ok have "x < p" "p < length h" "left (h ! p) = Some x \<or> right (h ! p) = Some x"
      by (simp_all add: structOk_def)
    then show ?thesis using Some f(3)[OF x] f(1,2)[of p] len by simp
  qed
  have C: "case left (h' ! x) of None \<Rightarrow> right (h' ! x) = None
      | Some l \<Rightarrow> (case right (h' ! x) of None \<Rightarrow> False
        | Some r \<Rightarrow> l \<noteq> r \<and> l < x \<and> r < x \<and> parent (h' ! l) = Some x \<and> parent (h' ! r) = Some x)"
  proof (cases "left (h ! x)")
    case None
    then show ?thesis using ok f(1,2)[OF x] by (simp add: structOk_def)
  next
    case (Some l)
    with ok obtain r where r: "right (h ! x) = Some r" "l \<noteq> r" "l < x" "r < x"
      "parent (h ! l) = Some x" "parent (h ! r) = Some x"
      by (auto simp: structOk_def split: option.splits)
    then show ?thesis using Some f(1,2)[OF x] f(3)[of l] f(3)[of r] x by simp
  qed
  from P C show ?thesis by (simp add: structOk_def)
qed

lemma forest_sameShape:
  assumes f: "forest H h roots" and s: "sameShape h h'"
    and hk: "\<And>x. x < length h \<Longrightarrow> hashOk H h' x"
  shows "forest H h' roots"
proof -
  have len: "length h' = length h" using s by (simp add: sameShape_def)
  have p: "parent (h' ! y) = parent (h ! y)" if "y < length h" for y
    using s that by (simp add: sameShape_def)
  show ?thesis
    unfolding forest_def
  proof (intro conjI ballI)
    show "distinct roots" using f by (simp add: forest_def)
  next
    fix a assume "a \<in> {..<length h'}"
    then have a: "a < length h" using len by simp
    from f a have "structOk h a" by (simp add: forest_def)
    then show "structOk h' a" by (rule structOk_sameShape[OF s a])
    show "hashOk H h' a" by (rule hk[OF a])
    show "(parent (h' ! a) = None) = (Some a \<in> set roots)"
      using f a p[OF a] by (simp add: forest_def)
  next
    fix q assume "q \<in> set roots"
    with f have q: "case q of None \<Rightarrow> False | Some a \<Rightarrow> a < length h" by (simp add: forest_def)
    show "case q of None \<Rightarrow> False | Some a \<Rightarrow> a < length h'"
      by (insert q, cases q) (simp_all add: len)
  qed
qed

lemma shape_parent:
  assumes f0: "forest H h0 [Some \<rho>]" and s: "sameShape h0 h" and a: "a < length h" and ne: "a \<noteq> \<rho>"
  shows "\<exists>p l r. parent (h ! a) = Some p \<and> a < p \<and> p < length h \<and>
           left (h ! p) = Some l \<and> right (h ! p) = Some r \<and> l \<noteq> r \<and> l < p \<and> r < p \<and>
           (l = a \<or> r = a) \<and> parent (h ! l) = Some p \<and> parent (h ! r) = Some p \<and>
           hash (h0 ! p) = hashNode H (hash (h0 ! l)) (hash (h0 ! r))"
proof -
  have len: "length h = length h0" using s by (simp add: sameShape_def)
  have fl: "left (h ! y) = left (h0 ! y)" "right (h ! y) = right (h0 ! y)"
    "parent (h ! y) = parent (h0 ! y)" if "y < length h0" for y
    using s that by (simp_all add: sameShape_def)
  from forest_parent[OF f0 _ ne] a len obtain p l r where
    plr: "parent (h0 ! a) = Some p" "a < p" "p < length h0"
    "left (h0 ! p) = Some l" "right (h0 ! p) = Some r" "l \<noteq> r" "l < p" "r < p" "l = a \<or> r = a"
    "hash (h0 ! p) = hashNode H (hash (h0 ! l)) (hash (h0 ! r))"
    by auto
  from f0 plr(3) have "structOk h0 p" by (simp add: forest_def)
  with plr(4,5) have "parent (h0 ! l) = Some p" "parent (h0 ! r) = Some p"
    by (simp_all add: structOk_def)
  with plr show ?thesis using fl(3)[of a] fl(1,2)[of p] fl(3)[of l] fl(3)[of r] a len by auto
qed

lemma updatePath_step:
  assumes a: "a < length h" and ne: "a \<noteq> \<rho>"
    and p: "parent (h ! a) = Some p" "a < p" "p < length h"
    and lr: "left (h ! p) = Some l" "right (h ! p) = Some r" "l < p" "r < p" "l = a \<or> r = a"
  shows "updatePath H h (Some \<rho>) (Some a) =
     updatePath H (h[p := (h ! p)\<lparr>hash := hashNode H (hash (h ! l)) (hash (h ! r))\<rparr>])
       (Some \<rho>) (Some p)"
proof (cases "l = a")
  case True
  then show ?thesis using a ne p lr
    by (subst updatePath.simps) (simp add: deref_def)
next
  case False
  with lr have "r = a" by simp
  then show ?thesis using a ne p lr False
    by (subst updatePath.simps) (simp add: deref_def)
qed

lemma updatePath_restores:
  assumes f0: "forest H h0 [Some \<rho>]"
  shows "sameShape h0 h \<Longrightarrow> a < length h \<Longrightarrow>
     (\<forall>x<length h. parent (h ! a) \<noteq> Some x \<longrightarrow> hashOk H h x) \<Longrightarrow>
     \<exists>h'. updatePath H h (Some \<rho>) (Some a) = Some (None, h') \<and> sameShape h h' \<and>
       (\<forall>x<length h. hashOk H h' x) \<and>
       (\<forall>x<length h. left (h ! x) = None \<longrightarrow> hash (h' ! x) = hash (h ! x))"
proof (induction "length h - a" arbitrary: a h rule: less_induct)
  case less
  note s = less.prems(1) and a = less.prems(2) and hk = less.prems(3)
  show ?case
  proof (cases "a = \<rho>")
    case True
    from forest_root[OF f0] s a True have "parent (h ! a) = None"
      by (simp add: sameShape_def)
    with hk have "\<forall>x<length h. hashOk H h x" by simp
    moreover have "updatePath H h (Some \<rho>) (Some a) = Some (None, h)"
      using True by (subst updatePath.simps) simp
    ultimately show ?thesis using sameShape_refl by blast
  next
    case False
    from shape_parent[OF f0 s a False] obtain p l r where
      p: "parent (h ! a) = Some p" "a < p" "p < length h" and
      lr: "left (h ! p) = Some l" "right (h ! p) = Some r" "l \<noteq> r" "l < p" "r < p" "l = a \<or> r = a"
      by blast
    define h1 where "h1 = h[p := (h ! p)\<lparr>hash := hashNode H (hash (h ! l)) (hash (h ! r))\<rparr>]"
    have step: "updatePath H h (Some \<rho>) (Some a) = updatePath H h1 (Some \<rho>) (Some p)"
      unfolding h1_def by (rule updatePath_step[OF a False p lr(1,2,4,5,6)])
    have s1: "sameShape h h1" unfolding h1_def by (rule sameShape_hash_update)
    have len1: "length h1 = length h" by (simp add: h1_def)
    have h1p: "h1 ! p = (h ! p)\<lparr>hash := hashNode H (hash (h ! l)) (hash (h ! r))\<rparr>"
      using p by (simp add: h1_def)
    have h1o: "h1 ! x = h ! x" if "x \<noteq> p" for x using that by (simp add: h1_def)
    have so: "structOk h x" if "x < length h" for x
    proof -
      from that s have x0: "x < length h0" by (simp add: sameShape_def)
      with f0 have "structOk h0 x" by (simp add: forest_def)
      from structOk_sameShape[OF s x0 this] show ?thesis .
    qed
    have hk1: "\<forall>x<length h1. parent (h1 ! p) \<noteq> Some x \<longrightarrow> hashOk H h1 x"
    proof (intro allI impI)
      fix x assume x: "x < length h1" and np: "parent (h1 ! p) \<noteq> Some x"
      show "hashOk H h1 x"
      proof (cases "x = p")
        case True
        then show ?thesis using h1p lr h1o[of l] h1o[of r] by (simp add: hashOk_def)
      next
        case xp: False
        with hk x len1 p have ok: "hashOk H h x" by simp
        show ?thesis
        proof (cases "left (h ! x)")
          case None
          then show ?thesis using h1o[OF xp] by (simp add: hashOk_def)
        next
          case (Some l')
          with so[of x] x len1 obtain r' where r': "right (h ! x) = Some r'"
            "parent (h ! l') = Some x" "parent (h ! r') = Some x"
            by (auto simp: structOk_def split: option.splits)
          from np h1p have "parent (h ! p) \<noteq> Some x" by simp
          with r' have "l' \<noteq> p" "r' \<noteq> p" by auto
          then show ?thesis using ok Some r' h1o[OF xp] h1o[of l'] h1o[of r']
            by (simp add: hashOk_def)
        qed
      qed
    qed
    have lt: "length h1 - p < length h - a" using p len1 by simp
    from less.hyps[OF lt sameShape_trans[OF s s1] _ hk1] p len1 obtain h' where
      h': "updatePath H h1 (Some \<rho>) (Some p) = Some (None, h')" "sameShape h1 h'"
        "\<forall>x<length h1. hashOk H h' x"
        "\<forall>x<length h1. left (h1 ! x) = None \<longrightarrow> hash (h' ! x) = hash (h1 ! x)"
      by auto
    have fr: "\<forall>x<length h. left (h ! x) = None \<longrightarrow> hash (h' ! x) = hash (h ! x)"
    proof (intro allI impI)
      fix x assume x: "x < length h" and ln: "left (h ! x) = None"
      with lr have xp: "x \<noteq> p" by auto
      from h'(4) x len1 ln h1o[OF xp] show "hash (h' ! x) = hash (h ! x)" by simp
    qed
    from step h'(1) sameShape_trans[OF s1 h'(2)] h'(3) len1 fr show ?thesis by auto
  qed
qed

lemma hashNode_inj:
  "inj H \<Longrightarrow> hashNode H a b = hashNode H a' b' \<Longrightarrow> a @ b = a' @ b'"
  by (simp add: hashNode_def inj_eq)

lemma updatePath_root_changes:
  assumes f0: "forest H h0 [Some \<rho>]" and inj: "inj H"
  shows "sameShape h0 h \<Longrightarrow> a < length h \<Longrightarrow> hash (h ! a) \<noteq> hash (h0 ! a) \<Longrightarrow>
     (\<forall>x<length h. x \<noteq> a \<longrightarrow> (\<forall>q. parent (h ! x) = Some q \<longrightarrow> a < q) \<longrightarrow>
        hash (h ! x) = hash (h0 ! x)) \<Longrightarrow>
     updatePath H h (Some \<rho>) (Some a) = Some (None, h') \<Longrightarrow> hash (h' ! \<rho>) \<noteq> hash (h0 ! \<rho>)"
proof (induction "length h - a" arbitrary: a h rule: less_induct)
  case less
  note s = less.prems(1) and a = less.prems(2) and ch = less.prems(3)
    and un = less.prems(4) and run = less.prems(5)
  show ?case
  proof (cases "a = \<rho>")
    case True
    have "updatePath H h (Some \<rho>) (Some a) = Some (None, h)"
      using True by (subst updatePath.simps) simp
    with run ch True show ?thesis by simp
  next
    case False
    from shape_parent[OF f0 s a False] obtain p l r where
      p: "parent (h ! a) = Some p" "a < p" "p < length h" and
      lr: "left (h ! p) = Some l" "right (h ! p) = Some r" "l \<noteq> r" "l < p" "r < p" "l = a \<or> r = a" and
      pp: "parent (h ! l) = Some p" "parent (h ! r) = Some p" and
      h0p: "hash (h0 ! p) = hashNode H (hash (h0 ! l)) (hash (h0 ! r))"
      by blast
    define h1 where "h1 = h[p := (h ! p)\<lparr>hash := hashNode H (hash (h ! l)) (hash (h ! r))\<rparr>]"
    have step: "updatePath H h (Some \<rho>) (Some a) = updatePath H h1 (Some \<rho>) (Some p)"
      unfolding h1_def by (rule updatePath_step[OF a False p lr(1,2,4,5,6)])
    have s1: "sameShape h h1" unfolding h1_def by (rule sameShape_hash_update)
    have len1: "length h1 = length h" by (simp add: h1_def)
    have h1p: "hash (h1 ! p) = hashNode H (hash (h ! l)) (hash (h ! r))"
      using p by (simp add: h1_def)
    have h1o: "h1 ! x = h ! x" if "x \<noteq> p" for x using that by (simp add: h1_def)
    have par1: "parent (h1 ! x) = parent (h ! x)" if "x < length h" for x
      using s1 that by (simp add: sameShape_def)
    have ll: "l < length h" "r < length h" using lr p by simp_all
    have sib: "hash (h ! l) @ hash (h ! r) \<noteq> hash (h0 ! l) @ hash (h0 ! r)"
    proof (cases "l = a")
      case True
      with lr have "r \<noteq> a" by simp
      with un ll pp p have "hash (h ! r) = hash (h0 ! r)" by simp
      with ch True show ?thesis by simp
    next
      case nl: False
      with lr have ra: "r = a" by simp
      from nl un ll pp p have "hash (h ! l) = hash (h0 ! l)" by simp
      with ch ra show ?thesis by simp
    qed
    have ch1: "hash (h1 ! p) \<noteq> hash (h0 ! p)"
      using sib hashNode_inj[OF inj] unfolding h1p h0p by blast
    have un1: "\<forall>x<length h1. x \<noteq> p \<longrightarrow> (\<forall>q. parent (h1 ! x) = Some q \<longrightarrow> p < q) \<longrightarrow>
        hash (h1 ! x) = hash (h0 ! x)"
    proof (intro allI impI)
      fix x assume x: "x < length h1" and xp: "x \<noteq> p"
        and q: "\<forall>q. parent (h1 ! x) = Some q \<longrightarrow> p < q"
      from x len1 have xl: "x < length h" by simp
      from q par1[OF xl] have q': "\<forall>q. parent (h ! x) = Some q \<longrightarrow> p < q" by simp
      with p have xa: "x \<noteq> a" by auto
      from q' p have "\<forall>q. parent (h ! x) = Some q \<longrightarrow> a < q" by auto
      with un xl xa have "hash (h ! x) = hash (h0 ! x)" by simp
      with h1o[OF xp] show "hash (h1 ! x) = hash (h0 ! x)" by simp
    qed
    have lt: "length h1 - p < length h - a" using p len1 by simp
    from run step have run1: "updatePath H h1 (Some \<rho>) (Some p) = Some (None, h')" by simp
    from less.hyps[OF lt sameShape_trans[OF s s1] _ ch1 un1 run1] p len1 show ?thesis by simp
  qed
qed

lemma wfTree_hashInvariant:
  assumes wf: "wfTree H t"
  shows "hashInvariant H t"
  unfolding hashInvariant_def
proof
  fix n assume "n \<in> set (heap t)"
  then obtain a where a: "a < length (heap t)" "n = heap t ! a" by (auto simp: in_set_conv_nth)
  from wf a have so: "structOk (heap t) a" and hk: "hashOk H (heap t) a"
    by (auto simp: wfTree_def forest_def)
  show "if left n = None \<and> right n = None then True
        else (case deref (heap t) (left n) of
            Inl e \<Rightarrow> False
          | Inr l \<Rightarrow> (case deref (heap t) (right n) of
              Inl e \<Rightarrow> False
            | Inr r \<Rightarrow> hash n = hashNode H (hash l) (hash r)))"
  proof (cases "left n")
    case None
    with so a show ?thesis by (simp add: structOk_def)
  next
    case (Some l)
    with so a obtain r where r: "right n = Some r" "l < a" "r < a"
      by (auto simp: structOk_def split: option.splits)
    with hk a Some show ?thesis by (simp add: hashOk_def deref_def)
  qed
qed

lemma UpdateElement_wf:
  assumes wf: "wfTree H t" and i: "i < length (leaves t)"
  shows "\<exists>t' a r r0. UpdateElement H t (word_of_nat i) x = Some (None, t') \<and> wfTree H t' \<and>
     leaves t' = leaves t \<and> leaves t ! i = Some a \<and> hash (heap t' ! a) = hashLeaf H x \<and>
     (\<forall>j<length (leaves t). j \<noteq> i \<longrightarrow>
        hash (heap t' ! the (leaves t ! j)) = hash (heap t ! the (leaves t ! j))) \<and>
     getRoot t' = Inr r \<and> getRoot t = Inr r0 \<and>
     (inj H \<longrightarrow> hash (heap t ! a) \<noteq> hashLeaf H x \<longrightarrow> r \<noteq> r0)"
proof -
  define h0 where "h0 = heap t"
  from wf i have "int i < 2 ^ 63" by (simp add: wfTree_def)
  note w = word64_of_nat_small[OF this]
  from wfTree_leaf[OF wf i] obtain a where
    a: "leaves t ! i = Some a" "a < length h0" "left (h0 ! a) = None"
    unfolding h0_def by blast
  from wfTree_root[OF wf] obtain \<rho> where
    r: "root t = Some \<rho>" "\<rho> < length h0" "forest H h0 [Some \<rho>]"
       "getRoot t = Inr (hash (h0 ! \<rho>))"
    unfolding h0_def by blast
  define h1 where "h1 = h0[a := (h0 ! a)\<lparr>hash := hashLeaf H x\<rparr>]"
  have s1: "sameShape h0 h1" unfolding h1_def by (rule sameShape_hash_update)
  have len1: "length h1 = length h0" by (simp add: h1_def)
  have h1a: "hash (h1 ! a) = hashLeaf H x" using a by (simp add: h1_def)
  have h1o: "h1 ! y = h0 ! y" if "y \<noteq> a" for y using that by (simp add: h1_def)
  have fl1: "left (h1 ! y) = left (h0 ! y)" "right (h1 ! y) = right (h0 ! y)" if "y < length h0" for y
    using s1 that by (simp_all add: sameShape_def)
  have hk1: "\<forall>y<length h1. parent (h1 ! a) \<noteq> Some y \<longrightarrow> hashOk H h1 y"
  proof (intro allI impI)
    fix y assume y: "y < length h1" and np: "parent (h1 ! a) \<noteq> Some y"
    from y len1 have y0: "y < length h0" by simp
    from r(3) y0 have so: "structOk h0 y" and ok: "hashOk H h0 y" by (simp_all add: forest_def)
    show "hashOk H h1 y"
    proof (cases "left (h0 ! y)")
      case None
      then show ?thesis using fl1[OF y0] by (simp add: hashOk_def)
    next
      case (Some l')
      with so obtain r' where r': "right (h0 ! y) = Some r'"
        "parent (h0 ! l') = Some y" "parent (h0 ! r') = Some y"
        by (auto simp: structOk_def split: option.splits)
      from np s1 a have "parent (h0 ! a) \<noteq> Some y" by (simp add: sameShape_def)
      with r' have "l' \<noteq> a" "r' \<noteq> a" by auto
      moreover from Some a have "y \<noteq> a" by auto
      ultimately show ?thesis using ok Some r' h1o[of y] h1o[of l'] h1o[of r']
        by (simp add: hashOk_def)
    qed
  qed
  from updatePath_restores[OF r(3) s1 _ hk1] a len1 obtain h' where
    h': "updatePath H h1 (Some \<rho>) (Some a) = Some (None, h')" "sameShape h1 h'"
      "\<forall>y<length h1. hashOk H h' y"
      "\<forall>y<length h1. left (h1 ! y) = None \<longrightarrow> hash (h' ! y) = hash (h1 ! y)"
    by auto
  define t' where "t' = t\<lparr>heap := h'\<rparr>"
  have run: "UpdateElement H t (word_of_nat i) x = Some (None, t')"
    using i a h'(1) r(1) by (simp add: UpdateElement_def w deref_def h0_def[symmetric] h1_def t'_def)
  have s': "sameShape h0 h'" by (rule sameShape_trans[OF s1 h'(2)])
  have len': "length h' = length h0" using s' by (simp add: sameShape_def)
  have f': "forest H h' [Some \<rho>]"
    by (rule forest_sameShape[OF r(3) s']) (use h'(3) len1 in simp)
  have leafhash: "hash (h' ! b) = hash (h1 ! b)" if "b < length h0" "left (h0 ! b) = None" for b
    using h'(4) that fl1(1)[of b] len1 by simp
  have wf': "wfTree H t'"
    unfolding wfTree_def t'_def
  proof (intro conjI ballI)
    show "forest H (heap (t\<lparr>heap := h'\<rparr>)) [root (t\<lparr>heap := h'\<rparr>)]" using f' r(1) by simp
    show "distinct (leaves (t\<lparr>heap := h'\<rparr>))" using wf by (simp add: wfTree_def)
    show "int (length (leaves (t\<lparr>heap := h'\<rparr>))) < 2 ^ 63" using wf by (simp add: wfTree_def)
  next
    fix q assume "q \<in> set (leaves (t\<lparr>heap := h'\<rparr>))"
    then have "q \<in> set (leaves t)" by simp
    with wf have q: "case q of None \<Rightarrow> False | Some b \<Rightarrow> b < length h0 \<and> left (h0 ! b) = None"
      unfolding wfTree_def h0_def by blast
    show "case q of None \<Rightarrow> False
      | Some b \<Rightarrow> b < length (heap (t\<lparr>heap := h'\<rparr>)) \<and> left (heap (t\<lparr>heap := h'\<rparr>) ! b) = None"
    proof (cases q)
      case None
      with q show ?thesis by simp
    next
      case (Some b)
      with q have "b < length h0" "left (h0 ! b) = None" by simp_all
      with s' Some len' show ?thesis by (simp add: sameShape_def)
    qed
  qed
  have ha: "hash (heap t' ! a) = hashLeaf H x"
    using leafhash[OF a(2,3)] h1a by (simp add: t'_def)
  have others: "\<forall>j<length (leaves t). j \<noteq> i \<longrightarrow>
        hash (heap t' ! the (leaves t ! j)) = hash (heap t ! the (leaves t ! j))"
  proof (intro allI impI)
    fix j assume j: "j < length (leaves t)" and ji: "j \<noteq> i"
    from wfTree_leaf[OF wf j] obtain b where
      b: "leaves t ! j = Some b" "b < length h0" "left (h0 ! b) = None"
      unfolding h0_def by blast
    from wf have "distinct (leaves t)" by (simp add: wfTree_def)
    with i j ji have "leaves t ! j \<noteq> leaves t ! i" by (simp add: nth_eq_iff_index_eq)
    with a b have "b \<noteq> a" by simp
    with leafhash[OF b(2,3)] h1o[of b] b
    show "hash (heap t' ! the (leaves t ! j)) = hash (heap t ! the (leaves t ! j))"
      by (simp add: t'_def h0_def)
  qed
  have gr': "getRoot t' = Inr (hash (h' ! \<rho>))"
    using r(1,2) len' by (simp add: getRoot_def deref_def t'_def)
  have chg: "hash (h' ! \<rho>) \<noteq> hash (h0 ! \<rho>)" if "inj H" "hash (h0 ! a) \<noteq> hashLeaf H x"
  proof (rule updatePath_root_changes[OF r(3) that(1) s1 _ _ _ h'(1)])
    show "a < length h1" using a len1 by simp
    show "hash (h1 ! a) \<noteq> hash (h0 ! a)" using h1a that(2) by simp
    show "\<forall>y<length h1. y \<noteq> a \<longrightarrow> (\<forall>q. parent (h1 ! y) = Some q \<longrightarrow> a < q) \<longrightarrow>
        hash (h1 ! y) = hash (h0 ! y)"
      using h1o by simp
  qed
  show ?thesis
    using run wf' a(1) ha others gr' r(4) chg by (auto simp: t'_def h0_def)
qed

lemma UpdateElement_in_range:
  assumes "UpdateElement H t index x = Some (None, t')"
  shows "unat index < length (leaves t)"
  using assms by (auto simp: UpdateElement_def split: if_splits)

lemma UpdateElement_failed:
  assumes wf: "wfTree H t" and run: "UpdateElement H t index x = Some (Some e, t')"
  shows "t' = t"
proof (cases "int (length (leaves t)) \<le> sint index \<or> \<not> unat index < length (leaves t)")
  case True
  with run show ?thesis by (auto simp: UpdateElement_def split: if_splits)
next
  case False
  then have "unat index < length (leaves t)" by simp
  from UpdateElement_wf[OF wf this, of x] run show ?thesis by auto
qed

lemma tracks_inv:
  "tracks H xs t \<Longrightarrow>
     wfTree H t \<and> length (leaves t) \<le> length xs \<and>
     (\<forall>i<length (leaves t). hash (heap t ! the (leaves t ! i)) = hashLeaf H (xs ! i))"
proof (induction rule: tracks.induct)
  case (built es t)
  have li: "the (leaves t ! i) = i" if "i < length (leaves t)" for i
  proof -
    from that have "map Some [0..<length (leaves t)] ! i = Some i" by simp
    with NewMerkleTree_Inr(2)[OF built] show ?thesis by simp
  qed
  from NewMerkleTree_Inr(1,3)[OF built] li show ?case by simp
next
  case (updated xs t index x t')
  then have wf: "wfTree H t" and len: "length (leaves t) \<le> length xs"
    and hs: "\<And>j. j < length (leaves t) \<Longrightarrow> hash (heap t ! the (leaves t ! j)) = hashLeaf H (xs ! j)"
    by simp_all
  from UpdateElement_in_range[OF updated.hyps(2)] have i: "unat index < length (leaves t)" .
  from UpdateElement_wf[OF wf i, of x] updated.hyps(2) obtain a where
    u: "wfTree H t'" "leaves t' = leaves t" "leaves t ! unat index = Some a"
      "hash (heap t' ! a) = hashLeaf H x"
      "\<forall>j<length (leaves t). j \<noteq> unat index \<longrightarrow>
         hash (heap t' ! the (leaves t ! j)) = hash (heap t ! the (leaves t ! j))"
    by auto
  have "hash (heap t' ! the (leaves t' ! j)) = hashLeaf H (xs[unat index := x] ! j)"
    if j: "j < length (leaves t')" for j
  proof (cases "j = unat index")
    case True
    with u i len show ?thesis by simp
  next
    case False
    with u j hs[of j] show ?thesis by simp
  qed
  with u len show ?case by simp
next
  case (failed xs t index x e t')
  with UpdateElement_failed[of H t index x e t'] show ?case by simp
qed

lemma tracks_abc:
  "tracks tagHash [''a'', ''b'', ''c'', '''']
     \<lparr>heap =
        [\<lparr>hash = ''#a'', left = None, right = None, parent = Some 4\<rparr>,
         \<lparr>hash = ''#b'', left = None, right = None, parent = Some 4\<rparr>,
         \<lparr>hash = ''#c'', left = None, right = None, parent = Some 5\<rparr>,
         \<lparr>hash = ''#'', left = None, right = None, parent = Some 5\<rparr>,
         \<lparr>hash = ''##a#b'', left = Some 0, right = Some 1, parent = Some 6\<rparr>,
         \<lparr>hash = ''##c#'', left = Some 2, right = Some 3, parent = Some 6\<rparr>,
         \<lparr>hash = ''###a#b##c#'', left = Some 4, right = Some 5, parent = None\<rparr>],
      root = Some 6, leaves = [Some 0, Some 1, Some 2, Some 3]\<rparr>"
  using tracks.built [OF NewMerkleTree_abc] by (simp add: numeral_eq_Suc)

lemma UpdateElement_abc:
  "UpdateElement tagHash
     \<lparr>heap =
        [\<lparr>hash = ''#a'', left = None, right = None, parent = Some 4\<rparr>,
         \<lparr>hash = ''#b'', left = None, right = None, parent = Some 4\<rparr>,
         \<lparr>hash = ''#c'', left = None, right = None, parent = Some 5\<rparr>,
         \<lparr>hash = ''#'', left = None, right = None, parent = Some 5\<rparr>,
         \<lparr>hash = ''##a#b'', left = Some 0, right = Some 1, parent = Some 6\<rparr>,
         \<lparr>hash = ''##c#'', left = Some 2, right = Some 3, parent = Some 6\<rparr>,
         \<lparr>hash = ''###a#b##c#'', left = Some 4, right = Some 5, parent = None\<rparr>],
      root = Some 6, leaves = [Some 0, Some 1, Some 2, Some 3]\<rparr> 1 ''z'' =
   Some (None,
     \<lparr>heap =
        [\<lparr>hash = ''#a'', left = None, right = None, parent = Some 4\<rparr>,
         \<lparr>hash = ''#z'', left = None, right = None, parent = Some 4\<rparr>,
         \<lparr>hash = ''#c'', left = None, right = None, parent = Some 5\<rparr>,
         \<lparr>hash = ''#'', left = None, right = None, parent = Some 5\<rparr>,
         \<lparr>hash = ''##a#z'', left = Some 0, right = Some 1, parent = Some 6\<rparr>,
         \<lparr>hash = ''##c#'', left = Some 2, right = Some 3, parent = Some 6\<rparr>,
         \<lparr>hash = ''###a#z##c#'', left = Some 4, right = Some 5, parent = None\<rparr>],
      root = Some 6, leaves = [Some 0, Some 1, Some 2, Some 3]\<rparr>)"
  by (simp add: UpdateElement_def updatePath.simps deref_def tagHash_def hashLeaf_def
      hashNode_def)

lemma inj_tagHash: "inj tagHash"
  by (simp add: inj_def tagHash_def)

text \<open>
  C6: the hash of every node with children is the node hash of its children's hashes,
  right after \<^verbatim>\<open>NewMerkleTree\<close> and after every \<^verbatim>\<open>UpdateElement\<close> call on a tree so
  obtained, whatever the call returns.
\<close>

theorem hashInvariant_always:
  "(NewMerkleTree H es = Inr t \<longrightarrow> hashInvariant H t) \<and>
   (tracks H xs t \<longrightarrow> UpdateElement H t index x = Some (res, t') \<longrightarrow> hashInvariant H t')"
proof (intro conjI impI)
  assume "NewMerkleTree H es = Inr t"
  then show "hashInvariant H t"
    by (intro wfTree_hashInvariant NewMerkleTree_Inr(1))
next
  assume tr: "tracks H xs t" and run: "UpdateElement H t index x = Some (res, t')"
  have "\<exists>ys. tracks H ys t'"
  proof (cases res)
    case None
    with tracks.updated[OF tr] run show ?thesis by blast
  next
    case (Some e)
    with tracks.failed[OF tr] run show ?thesis by blast
  qed
  then show "hashInvariant H t'"
    using tracks_inv wfTree_hashInvariant by blast
qed

theorem hashInvariant_always_witness:
  "\<exists>t t'. NewMerkleTree tagHash [''a'', ''b'', ''c''] = Inr t \<and>
     tracks tagHash [''a'', ''b'', ''c'', ''''] t \<and>
     UpdateElement tagHash t 1 ''z'' = Some (None, t') \<and>
     hashInvariant tagHash t \<and> hashInvariant tagHash t'"
  using hashInvariant_always [where H = tagHash and es = "[''a'', ''b'', ''c'']"
      and xs = "[''a'', ''b'', ''c'', '''']" and index = 1 and x = "''z''" and res = None]
    NewMerkleTree_abc tracks_abc UpdateElement_abc
  by blast

text \<open>
  C8: on a tree so obtained, \<^verbatim>\<open>UpdateElement(i, x)\<close> at an index below \<^verbatim>\<open>len(t.leaves)\<close>
  succeeds; \<^verbatim>\<open>GetProof(i)\<close> then returns a proof with \<^verbatim>\<open>hElement\<close> the leaf hash of \<open>x\<close>
  that \<^verbatim>\<open>VerifyProof\<close> accepts against the new root; and when the hash has no collision
  (\<open>inj H\<close>) and \<open>x\<close> differs from the element at \<open>i\<close>, the root changes.
\<close>

theorem UpdateElement_then_GetProof:
  assumes tr: "tracks H xs t" and i: "i < length (leaves t)"
  shows "\<exists>t' p r r0. UpdateElement H t (word_of_nat i) x = Some (None, t') \<and>
     GetProof t' (word_of_nat i) = Some (Inr p) \<and> hElement p = hashLeaf H x \<and>
     getRoot t' = Inr r \<and> VerifyProof H r p = Inr True \<and> getRoot t = Inr r0 \<and>
     (inj H \<longrightarrow> x \<noteq> xs ! i \<longrightarrow> r \<noteq> r0)"
proof -
  from tracks_inv[OF tr] i have wf: "wfTree H t"
    and hi: "hash (heap t ! the (leaves t ! i)) = hashLeaf H (xs ! i)"
    by simp_all
  from UpdateElement_wf[OF wf i, of x] obtain t' a r r0 where
    u: "UpdateElement H t (word_of_nat i) x = Some (None, t')" "wfTree H t'"
      "leaves t' = leaves t" "leaves t ! i = Some a" "hash (heap t' ! a) = hashLeaf H x"
      "getRoot t' = Inr r" "getRoot t = Inr r0"
      "inj H \<longrightarrow> hash (heap t ! a) \<noteq> hashLeaf H x \<longrightarrow> r \<noteq> r0"
    by blast
  from i u(3) have i': "i < length (leaves t')" by simp
  from GetProof_wf[OF u(2) i'] wfTree_root[OF u(2)] u(3,4,5,6) obtain p where
    p: "GetProof t' (word_of_nat i) = Some (Inr p)" "hElement p = hashLeaf H x"
      "VerifyProof H r p = Inr True"
    by (auto simp: VerifyProof_def)
  have "r \<noteq> r0" if "inj H" "x \<noteq> xs ! i"
  proof -
    from that have "hashLeaf H (xs ! i) \<noteq> hashLeaf H x" by (auto simp: hashLeaf_def inj_eq)
    with hi u(4) u(8) that(1) show ?thesis by simp
  qed
  with u(1,6,7) p show ?thesis by blast
qed

theorem UpdateElement_then_GetProof_witness:
  "\<exists>t. tracks tagHash [''a'', ''b'', ''c'', ''''] t \<and> 1 < length (leaves t) \<and>
     inj tagHash \<and> ''z'' \<noteq> [''a'', ''b'', ''c'', ''''] ! 1 \<and>
     (\<exists>t' p r r0. UpdateElement tagHash t (word_of_nat 1) ''z'' = Some (None, t') \<and>
        GetProof t' (word_of_nat 1) = Some (Inr p) \<and> hElement p = hashLeaf tagHash ''z'' \<and>
        getRoot t' = Inr r \<and> VerifyProof tagHash r p = Inr True \<and> getRoot t = Inr r0 \<and>
        r \<noteq> r0)"
proof -
  have "''z'' \<noteq> [''a'', ''b'', ''c'', ''''] ! 1" by simp
  with UpdateElement_then_GetProof [OF tracks_abc, of 1 "''z''"] inj_tagHash tracks_abc
  show ?thesis by (intro exI [of _ "\<lparr>heap =
        [\<lparr>hash = ''#a'', left = None, right = None, parent = Some 4\<rparr>,
         \<lparr>hash = ''#b'', left = None, right = None, parent = Some 4\<rparr>,
         \<lparr>hash = ''#c'', left = None, right = None, parent = Some 5\<rparr>,
         \<lparr>hash = ''#'', left = None, right = None, parent = Some 5\<rparr>,
         \<lparr>hash = ''##a#b'', left = Some 0, right = Some 1, parent = Some 6\<rparr>,
         \<lparr>hash = ''##c#'', left = Some 2, right = Some 3, parent = Some 6\<rparr>,
         \<lparr>hash = ''###a#b##c#'', left = Some 4, right = Some 5, parent = None\<rparr>],
      root = Some 6, leaves = [Some 0, Some 1, Some 2, Some 3]\<rparr>"]) simp
qed

section \<open>The build succeeds for up to 2^32 elements\<close>

text \<open>
  For \<open>0 < n \<le> 2^32\<close>, \<^verbatim>\<open>getNextPowerOfTwo\<close> returns the least power of two that is at
  least \<open>n\<close>; then the padded level has a power of two of nodes, no level is odd, and
  \<^verbatim>\<open>NewMerkleTree\<close> returns a tree with that many leaves.
\<close>

lemma smear_step:
  fixes x m :: "64 word"
  assumes top: "\<not> bit x 63"
    and bx: "\<And>i. bit x i \<longleftrightarrow> (\<exists>d\<le>j. bit m (i + d))"
  shows "\<not> bit (x OR signed_drop_bit (Suc j) x) 63"
    and "\<And>i. bit (x OR signed_drop_bit (Suc j) x) i \<longleftrightarrow> (\<exists>d\<le>j + Suc j. bit m (i + d))"
proof -
  have sd: "bit (signed_drop_bit (Suc j) x) i \<longleftrightarrow> bit x (Suc j + i)" for i
  proof (cases "i < 64")
    case True
    then show ?thesis using top
      by (auto simp: bit_signed_drop_bit_iff dest: bit_imp_le_length)
  next
    case False
    then show ?thesis by (auto dest: bit_imp_le_length)
  qed
  show "\<not> bit (x OR signed_drop_bit (Suc j) x) 63"
    using top sd[of 63] by (auto simp: bit_or_iff dest: bit_imp_le_length)
  fix i
  show "bit (x OR signed_drop_bit (Suc j) x) i \<longleftrightarrow> (\<exists>d\<le>j + Suc j. bit m (i + d))"
  proof
    assume "bit (x OR signed_drop_bit (Suc j) x) i"
    then consider "bit x i" | "bit x (Suc j + i)" by (auto simp: bit_or_iff sd)
    then show "\<exists>d\<le>j + Suc j. bit m (i + d)"
    proof cases
      case 1
      with bx obtain d where "d \<le> j" "bit m (i + d)" by blast
      then show ?thesis by (intro exI[of _ d]) simp
    next
      case 2
      with bx obtain d where "d \<le> j" "bit m (Suc j + i + d)" by blast
      then show ?thesis by (intro exI[of _ "Suc j + d"]) (simp add: ac_simps)
    qed
  next
    assume "\<exists>d\<le>j + Suc j. bit m (i + d)"
    then obtain d where d: "d \<le> j + Suc j" "bit m (i + d)" by blast
    show "bit (x OR signed_drop_bit (Suc j) x) i"
    proof (cases "d \<le> j")
      case True
      with d bx have "bit x i" by blast
      then show ?thesis by (simp add: bit_or_iff)
    next
      case False
      then have "d - Suc j \<le> j" "i + d = Suc j + i + (d - Suc j)" using d by simp_all
      with d bx[of "Suc j + i"] have "bit x (Suc j + i)" by metis
      then show ?thesis by (simp add: bit_or_iff sd)
    qed
  qed
qed

lemma getNextPowerOfTwo_smear:
  "getNextPowerOfTwo n = (if word_sle n 0 then 1 else smear (n - 1) + 1)"
  by (simp add: getNextPowerOfTwo_def smear_def Let_def)

lemma smear_step':
  fixes x m :: "64 word"
  assumes "\<not> bit x 63" and "\<And>i. bit x i \<longleftrightarrow> (\<exists>d\<le>j. bit m (i + d))"
    and "s = Suc j" and "j' = j + s"
  shows "\<not> bit (x OR signed_drop_bit s x) 63"
    and "\<And>i. bit (x OR signed_drop_bit s x) i \<longleftrightarrow> (\<exists>d\<le>j'. bit m (i + d))"
  using smear_step[OF assms(1,2)] assms(3,4) by simp_all

lemma smear_bits:
  fixes m :: "64 word"
  assumes top: "\<not> bit m 63"
  shows "bit (smear m) i \<longleftrightarrow> (\<exists>d\<le>31. bit m (i + d))"
proof -
  define x1 where "x1 = m OR signed_drop_bit 1 m"
  define x2 where "x2 = x1 OR signed_drop_bit 2 x1"
  define x3 where "x3 = x2 OR signed_drop_bit 4 x2"
  define x4 where "x4 = x3 OR signed_drop_bit 8 x3"
  define x5 where "x5 = x4 OR signed_drop_bit 16 x4"
  have b0: "bit m i \<longleftrightarrow> (\<exists>d\<le>0. bit m (i + d))" for i by simp
  have s1: "\<not> bit x1 63" "\<And>i. bit x1 i \<longleftrightarrow> (\<exists>d\<le>1. bit m (i + d))"
    unfolding x1_def by (rule smear_step'[OF top b0]; simp)+
  have s2: "\<not> bit x2 63" "\<And>i. bit x2 i \<longleftrightarrow> (\<exists>d\<le>3. bit m (i + d))"
    unfolding x2_def by (rule smear_step'[OF s1]; simp)+
  have s3: "\<not> bit x3 63" "\<And>i. bit x3 i \<longleftrightarrow> (\<exists>d\<le>7. bit m (i + d))"
    unfolding x3_def by (rule smear_step'[OF s2]; simp)+
  have s4: "\<not> bit x4 63" "\<And>i. bit x4 i \<longleftrightarrow> (\<exists>d\<le>15. bit m (i + d))"
    unfolding x4_def by (rule smear_step'[OF s3]; simp)+
  have s5: "\<not> bit x5 63" "\<And>i. bit x5 i \<longleftrightarrow> (\<exists>d\<le>31. bit m (i + d))"
    unfolding x5_def by (rule smear_step'[OF s4]; simp)+
  have "smear m = x5"
    by (simp add: smear_def Let_def x1_def x2_def x3_def x4_def x5_def)
  with s5(2) show ?thesis by simp
qed

lemma nat_bit_bounds:
  fixes x :: nat
  shows "x < 2 ^ k \<Longrightarrow> k \<le> j \<Longrightarrow> \<not> bit x j"
    and "2 ^ k \<le> x \<Longrightarrow> x < 2 ^ Suc k \<Longrightarrow> bit x k"
proof -
  assume xk: "x < 2 ^ k" and kj: "k \<le> j"
  from kj have "(2::nat) ^ k \<le> 2 ^ j" by (intro power_increasing) simp_all
  with xk have "x < 2 ^ j" by (rule less_le_trans)
  then show "\<not> bit x j" by (simp add: bit_iff_odd)
next
  assume a: "2 ^ k \<le> x" "x < 2 ^ Suc k"
  then have "x div 2 ^ k = 1"
    by (intro div_nat_eqI) simp_all
  then show "bit x k" by (simp add: bit_iff_odd)
qed

lemma smear_mask:
  fixes m :: "64 word"
  assumes m: "unat m < 2 ^ 32"
  shows "\<exists>k\<le>32. smear m = mask k \<and> unat m < 2 ^ k \<and> (0 < k \<longrightarrow> 2 ^ (k - 1) \<le> unat m)"
proof -
  define k where "k = (LEAST k. unat m < 2 ^ k)"
  have lt: "unat m < 2 ^ k" unfolding k_def using m by (rule LeastI)
  have k32: "k \<le> 32" unfolding k_def using m by (rule Least_le)
  have low: "2 ^ (k - 1) \<le> unat m" if "0 < k"
  proof -
    from that have "k - 1 < k" by simp
    then have "\<not> unat m < 2 ^ (k - 1)" unfolding k_def by (rule not_less_Least)
    then show ?thesis by simp
  qed
  have bm: "bit m j \<longleftrightarrow> j < 64 \<and> bit (unat m) j" for j
    by (auto simp: bit_unsigned_iff dest: bit_imp_le_length)
  have top: "\<not> bit m 63" using nat_bit_bounds(1)[OF m, of 63] by (simp add: bm)
  have hi: "\<not> bit m j" if "k \<le> j" for j
    using nat_bit_bounds(1)[OF lt that] by (simp add: bm)
  have topbit: "bit m (k - 1)" if "0 < k"
  proof -
    from that lt have "unat m < 2 ^ Suc (k - 1)" by simp
    from nat_bit_bounds(2)[OF low[OF that] this] k32 show ?thesis by (simp add: bm)
  qed
  have "bit (smear m) i \<longleftrightarrow> i < k" for i
  proof
    assume "bit (smear m) i"
    then obtain d where "bit m (i + d)" unfolding smear_bits[OF top] by blast
    with hi[of "i + d"] show "i < k" by (cases "k \<le> i + d") auto
  next
    assume i: "i < k"
    then have "k - 1 - i \<le> 31" "i + (k - 1 - i) = k - 1" using k32 by simp_all
    with topbit i show "bit (smear m) i"
      unfolding smear_bits[OF top] by (intro exI[of _ "k - 1 - i"]) simp
  qed
  then have "smear m = mask k"
    using k32 by (intro bit_eqI) (auto simp: bit_mask_iff)
  with lt k32 low show ?thesis by blast
qed

lemma getNextPowerOfTwo_nonpositive:
  "sint n \<le> 0 \<Longrightarrow> getNextPowerOfTwo n = 1"
  by (simp add: getNextPowerOfTwo_def word_sle_eq)

lemma getNextPowerOfTwo_small:
  assumes pos: "0 < sint n" and le: "sint n \<le> 2 ^ 32"
  shows "\<exists>k\<le>32. getNextPowerOfTwo n = 2 ^ k \<and> sint n \<le> 2 ^ k \<and> (0 < k \<longrightarrow> 2 ^ (k - 1) < sint n)"
proof -
  have "uint n = take_bit 64 (sint n)" by (simp add: uint_sint)
  also have "\<dots> = sint n"
  proof -
    have "sint n < 2 ^ 64" using le by simp
    with pos show ?thesis by (intro take_bit_int_eq_self) simp_all
  qed
  finally have un: "uint n = sint n" .
  then have n0: "n \<noteq> 0" using pos by auto
  have u1: "int (unat (n - 1)) = sint n - 1"
  proof -
    have "0 < unat n" using n0 by (simp add: unat_gt_0)
    then have "int (unat n - 1) = int (unat n) - 1" by (simp add: of_nat_diff)
    also have "\<dots> = sint n - 1" using un by simp
    finally show ?thesis by (simp only: unat_minus_one[OF n0])
  qed
  with le have "int (unat (n - 1)) < 2 ^ 32" by simp
  then have "unat (n - 1) < 2 ^ 32" by (metis of_nat_less_numeral_power_cancel_iff)
  from smear_mask[OF this] obtain k where
    k: "k \<le> 32" "smear (n - 1) = mask k" "unat (n - 1) < 2 ^ k"
       "0 < k \<longrightarrow> 2 ^ (k - 1) \<le> unat (n - 1)"
    by blast
  have "getNextPowerOfTwo n = 2 ^ k"
    using pos k(2) by (simp add: getNextPowerOfTwo_smear word_sle_eq mask_eq_exp_minus_1)
  moreover have "sint n \<le> 2 ^ k"
  proof -
    from k(3) have "int (unat (n - 1)) < 2 ^ k" by (metis of_nat_less_numeral_power_cancel_iff)
    with u1 show ?thesis by simp
  qed
  moreover have "2 ^ (k - 1) < sint n" if "0 < k"
  proof -
    from that k(4) have "(2::int) ^ (k - 1) \<le> int (unat (n - 1))"
      by (metis numeral_power_le_of_nat_cancel_iff)
    with u1 show ?thesis by simp
  qed
  ultimately show ?thesis using k(1) by blast
qed

lemma sint_2p_small: "k \<le> 32 \<Longrightarrow> sint (2 ^ k :: 64 word) = 2 ^ k"
proof -
  assume k: "k \<le> 32"
  then have "(2::int) ^ k \<le> 2 ^ 32" by (intro power_increasing) simp_all
  then have b: "(2::int) ^ k < 2 ^ 63" by simp
  have "sint (2 ^ k :: 64 word) = sint (word_of_int (2 ^ k) :: 64 word)" by simp
  also have "\<dots> = signed_take_bit 63 (2 ^ k)" by (simp only: sint_sbintrunc') simp
  also have "\<dots> = 2 ^ k"
  proof -
    have "- (2 ^ 63) \<le> (0::int)" "(0::int) \<le> 2 ^ k" by simp_all
    then have "- (2 ^ 63) \<le> (2::int) ^ k" by (rule order_trans)
    then show ?thesis using b by (rule signed_take_bit_int_eq_self)
  qed
  finally show ?thesis .
qed

lemma getNextPowerOfTwo_in_range:
  assumes pos: "0 < sint n" and le: "sint n \<le> 2 ^ 32"
  shows "\<exists>k. sint (getNextPowerOfTwo n) = 2 ^ k \<and> sint n \<le> 2 ^ k \<and>
           (\<forall>j. sint n \<le> 2 ^ j \<longrightarrow> k \<le> j)"
proof -
  from getNextPowerOfTwo_small[OF pos le] obtain k where
    k: "k \<le> 32" "getNextPowerOfTwo n = 2 ^ k" "sint n \<le> 2 ^ k" "0 < k \<longrightarrow> 2 ^ (k - 1) < sint n"
    by blast
  have "k \<le> j" if "sint n \<le> 2 ^ j" for j
  proof (cases "0 < k")
    case True
    with k(4) that have "(2::int) ^ (k - 1) < 2 ^ j" by linarith
    then have "k - 1 < j" by (simp only: power_strict_increasing_iff[of "2::int"] one_less_numeral_iff semiring_norm)
    with True show ?thesis by simp
  qed simp
  with k sint_2p_small[OF k(1)] show ?thesis by auto
qed

lemma buildLevels_succeeds:
  "forest H h lvs \<Longrightarrow> length lvs = 2 ^ k \<Longrightarrow>
     \<exists>h' lastLevel allNodes'. buildLevels H h lvs allNodes = Inr (h', lastLevel, allNodes')"
proof (induction k arbitrary: h lvs allNodes)
  case 0
  then show ?case by (simp add: buildLevels.simps[of H h lvs])
next
  case (Suc k)
  have p: "(0::nat) < 2 ^ k" by simp
  from Suc.prems(2) have l2: "length lvs = 2 * 2 ^ k" by simp
  have len: "1 < length lvs" "even (length lvs)" "length lvs div 2 = 2 ^ k"
  proof -
    show "1 < length lvs" using p l2 by linarith
    show "even (length lvs)" "length lvs div 2 = 2 ^ k" using l2 by simp_all
  qed
  from buildLevel_succeeds[of H h lvs "[]"] Suc.prems(1) len(2) obtain h1 nxt where
    bl: "buildLevel H h lvs [] = Inr (h1, nxt)" by auto
  have f1: "forest H h1 nxt"
    using buildLevel_forest[of H h lvs "[]" h1 nxt] Suc.prems(1) bl by simp
  have ln: "length nxt = 2 ^ k" using buildLevel_length[OF bl] len(3) by simp
  from Suc.IH[OF f1 ln, of "allNodes @ nxt"] bl len(1) show ?case
    by (simp add: buildLevels.simps[of H h lvs])
qed

lemma NewMerkleTree_succeeds:
  assumes ne: "es \<noteq> []" and le: "length es \<le> 2 ^ 32"
  shows "\<exists>t k. NewMerkleTree H es = Inr t \<and> length (leaves t) = 2 ^ k \<and>
           length es \<le> 2 ^ k \<and> (\<forall>j. length es \<le> 2 ^ j \<longrightarrow> k \<le> j)"
proof -
  define r where "r = sint (getNextPowerOfTwo (word_of_nat (length es)))"
  define d where "d = nat (r - int (length es))"
  define hs where "hs = map (hashLeaf H) es @ replicate d (hashLeaf H [])"
  define m where "m = length es + d"
  have il: "int (length es) \<le> 2 ^ 32" using le by (metis of_nat_le_numeral_power_cancel_iff)
  then have "int (length es) < 2 ^ 63" by simp
  note w = word64_of_nat_small(2)[OF this]
  have pos: "0 < sint (word_of_nat (length es) :: 64 word)" using ne by (simp add: w)
  have le': "sint (word_of_nat (length es) :: 64 word) \<le> 2 ^ 32" using il by (simp add: w)
  from getNextPowerOfTwo_in_range[OF pos le'] obtain k where
    k: "r = 2 ^ k" "int (length es) \<le> 2 ^ k" "\<forall>j. int (length es) \<le> 2 ^ j \<longrightarrow> k \<le> j"
    unfolding r_def w by blast
  have lk: "length es \<le> 2 ^ k" using k(2) by (metis of_nat_le_numeral_power_cancel_iff)
  have nr: "nat r = 2 ^ k" using k(1) by (simp add: nat_power_eq)
  have dn: "d = nat r - length es" by (simp add: d_def nat_diff_distrib')
  have mk: "m = 2 ^ k" unfolding m_def dn using lk nr by linarith
  have min: "k \<le> j" if "length es \<le> 2 ^ j" for j
  proof -
    from that have "int (length es) \<le> 2 ^ j" by (metis of_nat_le_numeral_power_cancel_iff)
    with k(3) show ?thesis by simp
  qed
  have m: "length hs = m" by (simp add: hs_def m_def)
  have h1: "map (\<lambda>e. newLeaf (hashLeaf H e)) es @ replicate d (newLeaf (hashLeaf H [])) = map newLeaf hs"
    by (simp add: hs_def)
  have lv1: "map Some [0..<length es] @ map Some [length es..<length es + d] = map Some [0..<m]"
    using upt_add_eq_append[of 0 "length es" d] by (simp add: m_def)
  have al: "allocLeaves H [] es [] = (map (\<lambda>e. newLeaf (hashLeaf H e)) es, map Some [0..<length es])"
    by (simp add: allocLeaves_eq)
  have pl: "padLeaves H r (map (\<lambda>e. newLeaf (hashLeaf H e)) es) (map Some [0..<length es]) =
      (map newLeaf hs, map Some [0..<m])"
    unfolding padLeaves_eq by (simp add: d_def[symmetric] h1 lv1)
  have eq: "NewMerkleTree H es =
      (case buildLevels H (map newLeaf hs) (map Some [0..<m]) (map Some [0..<m]) of
         Inl e \<Rightarrow> Inl e
       | Inr (h2, lastLevel, allNodes) \<Rightarrow>
           (case lastLevel of
              [] \<Rightarrow> Inl Panic
            | rt # _ \<Rightarrow>
                if r < 0 \<or> int (length allNodes) < r then Inl Panic
                else Inr \<lparr>heap = h2, root = rt, leaves = take (nat r) allNodes\<rparr>))"
    unfolding NewMerkleTree_def al r_def[symmetric] Let_def prod.case pl using ne by simp
  have f: "forest H (map newLeaf hs) (map Some [0..<m])"
    using forest_leaves[of H hs] m by simp
  from buildLevels_succeeds[OF f, of k "map Some [0..<m]"] mk obtain h2 lastLevel allNodes where
    bl: "buildLevels H (map newLeaf hs) (map Some [0..<m]) (map Some [0..<m]) = Inr (h2, lastLevel, allNodes)"
    by auto
  from buildLevels_forest[OF f bl] mk have
    ll: "lastLevel \<noteq> []" and la: "m \<le> length allNodes"
    by auto
  from ll obtain rt rest where rt: "lastLevel = rt # rest" by (cases lastLevel) auto
  have r0: "\<not> (r < 0 \<or> int (length allNodes) < r)"
    using k(1) la mk nr by auto
  have t: "NewMerkleTree H es = Inr \<lparr>heap = h2, root = rt, leaves = take (nat r) allNodes\<rparr>"
    unfolding eq bl using rt r0 by simp
  have "length (take (nat r) allNodes) = min (length allNodes) (nat r)" by simp
  also have "\<dots> = 2 ^ k" using la mk nr by linarith
  finally have "length (take (nat r) allNodes) = 2 ^ k" .
  with t lk min show ?thesis by auto
qed

end
